theory Spec2Isabelle
  imports Main "HOL-Library.Word" "HOL-Library.Multiset" "HOL-Library.Monad_Syntax"
begin

section \<open>The overlay peer: routing table, filter propagation, forwarding\<close>

text \<open>
  The class template \<open>peer<Derived, PeerId, CommunicationHandle>\<close> is embedded with
  explicit state passing. \<open>PeerId\<close> is a type \<open>'p\<close> with a total order and a
  default-constructed value \<open>default\<close>; \<open>CommunicationHandle\<close> is a type \<open>'h\<close> whose
  default-constructed value \<open>default\<close> is the invalid handle (the one that converts to
  \<open>false\<close>). Calls of \<open>dref().send\<close> and \<open>dref().ship_locally\<close> are recorded, in order,
  as a list of events.
\<close>

type_synonym filter_type = "string list"

text \<open>
  A row of the routing table: the handle of the neighbor and the distances to the
  peers reachable through it. The header declaring \<open>routing_table\<close> is not part of the
  sources at hand; the table is taken as the list of its \<open>(key, row)\<close> pairs in
  iteration order, and \<open>distances\<close> (only ever searched by key) as a map.
\<close>

record ('p, 'h) routing_table_row =
  hdl :: 'h
  distances :: "'p \<rightharpoonup> nat"

type_synonym ('p, 'h) routing_table = "('p \<times> ('p, 'h) routing_table_row) list"

datatype ('d, 'c) node_message_content = Data_message 'd | Command_message 'c

record ('p, 'd, 'c) node_message =
  content :: "('d, 'c) node_message_content"
  ttl :: "16 word"
  receivers :: "'p list"

record ('p, 'h) peer_state =
  tbl :: "('p, 'h) routing_table"
  ttl_m :: "16 word"
  timestamp_m :: "64 word"
  peer_timestamps :: "'p \<rightharpoonup> 64 word"
  filter_m :: filter_type
  peer_filters :: "'p \<rightharpoonup> filter_type"

text \<open>
  What \<open>handle_filter_update\<close> and \<open>subscribe\<close> send:
  \<open>send(hdl, atom::subscribe, path, filter, timestamp)\<close>.
\<close>

datatype ('p, 'h) subscription = Send_subscribe 'h "'p list" filter_type "64 word"

text \<open>
  What the publication path does: \<open>send(hdl, atom::publish, msg)\<close> and
  \<open>ship_locally(content)\<close>.
\<close>

datatype ('p, 'h, 'd, 'c) event =
    Send_publish 'h "('p, 'd, 'c) node_message"
  | Ship_locally "('d, 'c) node_message_content"

subsection \<open>\<open>handle_filter_update\<close>\<close>

datatype drop_reason = Nonsense_message | Unrecognized_connection | Path_loop | Distance_overflow

datatype outcome = Dropped drop_reason | Handled

text \<open>The update of \<open>src_entry.distances\<close>: insert if missing, lower if larger.\<close>

definition update_distance :: "'p \<Rightarrow> nat \<Rightarrow> ('p \<rightharpoonup> nat) \<Rightarrow> ('p \<rightharpoonup> nat)" where
  "update_distance origin distance ipaths =
     (case ipaths origin of
        None \<Rightarrow> ipaths(origin \<mapsto> distance)
      | Some d \<Rightarrow> if d > distance then ipaths(origin \<mapsto> distance) else ipaths)"

text \<open>Writing through a reference to the value stored under a key of a map.\<close>

fun update_row :: "'k \<Rightarrow> ('v \<Rightarrow> 'v) \<Rightarrow> ('k \<times> 'v) list \<Rightarrow> ('k \<times> 'v) list" where
  "update_row k f [] = []"
| "update_row k f ((k', row) # rest) =
     (if k' = k then (k', f row) # rest else (k', row) # update_row k f rest)"

text \<open>
  \<open>handle_filter_update(path, filter, timestamp)\<close> on the peer with id \<open>self\<close>. The result
  is the outcome (which early return was taken, if any), the state on return, and the
  messages sent. The lookup \<open>peer_timestamps_[subscriber]\<close> creates the entry with value
  0 when it is missing.
\<close>

definition handle_filter_update ::
  "'p \<Rightarrow> 'p list \<Rightarrow> filter_type \<Rightarrow> 64 word \<Rightarrow> ('p, 'h) peer_state \<Rightarrow>
   outcome \<times> ('p, 'h) peer_state \<times> ('p, 'h) subscription list" where
  "handle_filter_update self path fltr timestamp s =
     (if path = [] \<or> fltr = [] then (Dropped Nonsense_message, s, [])
      else case map_of (tbl s) (last path) of
        None \<Rightarrow> (Dropped Unrecognized_connection, s, [])
      | Some src_entry \<Rightarrow>
          if self \<in> set path then (Dropped Path_loop, s, [])
          else
            let distance = length path in
            if distance > 65535 then (Dropped Distance_overflow, s, [])
            else
              let ttl1 = max (ttl_m s) (of_nat distance);
                  tbl1 = (if distance > 1
                          then update_row (last path)
                                 (\<lambda>row. row\<lparr>distances :=
                                    update_distance (hd path) distance (distances row)\<rparr>)
                                 (tbl s)
                          else tbl s);
                  path1 = path @ [self];
                  sent = map (\<lambda>(pid, entry). Send_subscribe (hdl entry) path1 fltr timestamp)
                           (filter (\<lambda>(pid, entry). pid \<notin> set path1) tbl1);
                  subscriber = hd path1;
                  ts = (case peer_timestamps s subscriber of None \<Rightarrow> 0 | Some t \<Rightarrow> t);
                  s1 = s\<lparr>tbl := tbl1, ttl_m := ttl1\<rparr>
              in if ts < timestamp
                 then (Handled,
                       s1\<lparr>peer_timestamps := (peer_timestamps s)(subscriber \<mapsto> timestamp),
                          peer_filters := (peer_filters s)(subscriber \<mapsto> fltr)\<rparr>,
                       sent)
                 else (Handled,
                       s1\<lparr>peer_timestamps := (peer_timestamps s)(subscriber \<mapsto> ts)\<rparr>,
                       sent))"

text \<open>The timestamp recorded for a peer; a missing entry reads as 0.\<close>

definition timestamp_of :: "('p, 'h) peer_state \<Rightarrow> 'p \<Rightarrow> 64 word" where
  "timestamp_of s p = (case peer_timestamps s p of None \<Rightarrow> 0 | Some t \<Rightarrow> t)"

subsection \<open>\<open>ship\<close>: forwarding a node message\<close>

text \<open>\<open>std::numeric_limits<size_t>::max()\<close>, for a 64-bit \<open>size_t\<close>.\<close>

definition size_t_max :: nat where
  "size_t_max = 2 ^ 64 - 1"

text \<open>
  \<open>std::map::emplace\<close> on the local \<open>buckets\<close>, kept as the list of its entries in
  ascending key order: an existing key is left alone.
\<close>

fun map_emplace :: "'k::linorder \<Rightarrow> 'v \<Rightarrow> ('k \<times> 'v) list \<Rightarrow> ('k \<times> 'v) list" where
  "map_emplace k v [] = [(k, v)]"
| "map_emplace k v ((k', v') # rest) =
     (if k < k' then (k, v) # (k', v') # rest
      else if k = k' then (k', v') # rest
      else (k', v') # map_emplace k v rest)"

text \<open>
  The loop of the lambda \<open>get_bucket\<close> over \<open>tbl_\<close>: \<open>bucket_name\<close> and \<open>distance\<close>
  are replaced only by a strictly smaller distance.
\<close>

fun lowest_distance ::
  "'p \<Rightarrow> ('p, 'h) routing_table \<Rightarrow> 'p \<times> nat \<Rightarrow> 'p \<times> nat" where
  "lowest_distance x [] acc = acc"
| "lowest_distance x ((k, row) # rest) (bucket_name, distance) =
     lowest_distance x rest
       (case distances row x of
          None \<Rightarrow> (bucket_name, distance)
        | Some d \<Rightarrow> if d < distance then (k, d) else (bucket_name, distance))"

text \<open>
  \<open>get_bucket\<close> returns a pointer to the receiver list of a bucket, or \<open>nullptr\<close>; here
  the key of that bucket, or \<open>None\<close>. The buckets have the keys of \<open>tbl_\<close>. The sanity
  check \<open>bucket_invalid\<close> (\<open>!static_cast<bool>(bucket_name)\<close>, or \<open>bucket_name.empty()\<close>)
  holds of the default-constructed id.
\<close>

definition get_bucket :: "('p::default, 'h) routing_table \<Rightarrow> 'p \<Rightarrow> 'p option" where
  "get_bucket t x =
     (if map_of t x \<noteq> None then Some x
      else
        let (bucket_name, distance) = lowest_distance x t (default, size_t_max)
        in if bucket_name = default then None else Some bucket_name)"

definition ship ::
  "('p::{linorder,default}, 'h) routing_table \<Rightarrow> ('p, 'd, 'c) node_message \<Rightarrow>
   ('p, 'h, 'd, 'c) event list" where
  "ship t msg =
     (let buckets = fold (\<lambda>(k, row). map_emplace k (hdl row, [])) t [];
          buckets1 = fold (\<lambda>receiver b.
                        case get_bucket t receiver of
                          None \<Rightarrow> b
                        | Some k \<Rightarrow> update_row k (\<lambda>(h, bucket). (h, bucket @ [receiver])) b)
                      (receivers msg) buckets
      in concat (map (\<lambda>(first_hop, h, bucket).
                        if bucket \<noteq> [] then [Send_publish h (msg\<lparr>receivers := bucket\<rparr>)]
                        else [])
                     buckets1))"

text \<open>The loop of the direct-send overload \<open>ship(data_msg, receiver)\<close> over \<open>tbl_\<close>.\<close>

fun shortest_hop ::
  "'p::linorder \<Rightarrow> ('p, 'h) routing_table \<Rightarrow> 'p \<times> 'h \<times> nat \<Rightarrow> 'p \<times> 'h \<times> nat" where
  "shortest_hop receiver [] acc = acc"
| "shortest_hop receiver ((peer_id, entry) # rest) (hop_id, hop_hdl, distance) =
     shortest_hop receiver rest
       (case distances entry receiver of
          None \<Rightarrow> (hop_id, hop_hdl, distance)
        | Some x \<Rightarrow>
            if x < distance \<or> (x = distance \<and> peer_id < hop_id) then (peer_id, hdl entry, x)
            else (hop_id, hop_hdl, distance))"

definition ship_to ::
  "('p::{linorder,default}, 'h::default) routing_table \<Rightarrow> 16 word \<Rightarrow> 'd \<Rightarrow> 'p \<Rightarrow>
   ('p, 'h, 'd, 'c) event list" where
  "ship_to t ttl0 data_msg receiver =
     (let msg = \<lparr>content = Data_message data_msg, ttl = ttl0, receivers = [receiver]\<rparr>
      in case map_of t receiver of
           Some row \<Rightarrow> [Send_publish (hdl row) msg]
         | None \<Rightarrow>
             let (hop_id, hop_hdl, distance) =
                   shortest_hop receiver t (default, default, size_t_max)
             in if hop_hdl \<noteq> default then [Send_publish hop_hdl msg] else [])"

subsection \<open>\<open>handle_publication\<close>\<close>

text \<open>
  \<open>auto ttl = --get_unshared_ttl(msg)\<close> decrements the 16-bit TTL of the message in
  place; \<open>std::remove\<close> with \<open>erase\<close> drops every occurrence of the own id from the
  receivers, and the iterator test tells whether there was one.
\<close>

definition handle_publication ::
  "'p::{linorder,default} \<Rightarrow> ('p, 'h) routing_table \<Rightarrow> ('p, 'd, 'c) node_message \<Rightarrow>
   ('p, 'h, 'd, 'c) event list" where
  "handle_publication self t msg =
     (let ttl1 = ttl msg - 1;
          receivers1 = filter (\<lambda>r. r \<noteq> self) (receivers msg);
          msg1 = msg\<lparr>ttl := ttl1, receivers := receivers1\<rparr>;
          local = (if self \<in> set (receivers msg) then [Ship_locally (content msg)] else [])
      in if receivers1 \<noteq> []
         then (if ttl1 = 0 then local else local @ ship t msg1)
         else local)"

text \<open>
  The peers a node has a route to: the direct neighbors and the peers recorded in the
  \<open>distances\<close> of some neighbor.
\<close>

definition reachable :: "('p, 'h) routing_table \<Rightarrow> 'p \<Rightarrow> bool" where
  "reachable t x = (map_of t x \<noteq> None \<or> list_ex (\<lambda>(k, row). distances row x \<noteq> None) t)"

text \<open>
  The shape of a routing table: iterated in strictly ascending key order (an ordered map),
  keyed by valid ids, with every recorded distance below the largest \<open>size_t\<close>
  (\<open>handle_filter_update\<close> records none above 65535); and, for \<open>tbl_ok\<close>, holding valid
  handles.
\<close>

definition keys_ok :: "('p::{linorder,default}, 'h) routing_table \<Rightarrow> bool" where
  "keys_ok t =
     (sorted_wrt (<) (map fst t)
      \<and> list_all (\<lambda>(k, row). k \<noteq> default
                          \<and> (\<forall>d \<in> ran (distances row). d < size_t_max)) t)"

definition tbl_ok :: "('p::{linorder,default}, 'h::default) routing_table \<Rightarrow> bool" where
  "tbl_ok t = (keys_ok t \<and> list_all (\<lambda>(k, row). hdl row \<noteq> default) t)"

text \<open>
  The neighbors that record a distance to \<open>x\<close>, each with that distance.
\<close>

definition candidates :: "('p, 'h) routing_table \<Rightarrow> 'p \<Rightarrow> ('p \<times> nat) set" where
  "candidates t x = {(k, d). \<exists>row. (k, row) \<in> set t \<and> distances row x = Some d}"

text \<open>
  \<open>first_hop t x k row\<close>: the neighbor \<open>k\<close> with row \<open>row\<close> records a distance to \<open>x\<close>,
  no neighbor records a smaller one, and no neighbor with the same one has a smaller id.
\<close>

definition first_hop ::
  "('p::linorder, 'h) routing_table \<Rightarrow> 'p \<Rightarrow> 'p \<Rightarrow> ('p, 'h) routing_table_row \<Rightarrow> bool" where
  "first_hop t x k row =
     ((k, row) \<in> set t
      \<and> (\<exists>d. distances row x = Some d
             \<and> (\<forall>(k', d') \<in> candidates t x. d < d' \<or> (d = d' \<and> k \<le> k'))))"

text \<open>The receivers of an emitted copy.\<close>

fun copy_receivers :: "('p, 'h, 'd, 'c) event \<Rightarrow> 'p list" where
  "copy_receivers (Send_publish h m) = receivers m"
| "copy_receivers (Ship_locally c) = []"

instantiation nat :: default
begin

definition default_nat :: nat where
  "default_nat = 0"

instance ..

end

section \<open>The distribution policy: \<open>core_policy\<close>\<close>

text \<open>
  A data message is a topic with data, a command message a topic with a command; a node
  message of the policy has one of them as content, and a 16-bit TTL. An inbound
  \<open>caf::message\<close> either matches a batch of node messages (\<open>peer_trait::batch\<close>) or is
  something else, which \<open>handle_batch\<close> hands to \<open>try_handle\<close> (declared in the header,
  taken as a parameter here).
\<close>

type_synonym 'd data_message = "string \<times> 'd"
type_synonym 'c command_message = "string \<times> 'c"
type_synonym ('p, 'd, 'c) peer_message = "('p, 'd data_message, 'c command_message) node_message"

datatype ('p, 'd, 'c, 'o) message =
    Peer_batch "('p, 'd, 'c) peer_message list"
  | Other_batch 'o

text \<open>
  The calls on the downstream managers, recorded in order: assignments to
  \<open>peers().selector().active_sender\<close>, \<open>peers().fan_out_flush()\<close>, and the pushes to
  \<open>workers()\<close>, \<open>stores()\<close> and \<open>peers()\<close>.
\<close>

datatype ('a, 'p, 'd, 'c) policy_event =
    Active_sender "'a option"
  | Fan_out_flush
  | Workers_push "'d data_message"
  | Stores_push "'c command_message"
  | Peers_push "('p, 'd, 'c) peer_message"

text \<open>
  The state of the policy that the claims read: the block set and the buffered batches,
  the inbound slot of each peer, the option \<open>forward\<close>, the numbers of worker and store
  paths, and the trace of calls made so far.
\<close>

record ('a, 'p, 'd, 'c, 'o) core_policy =
  blocked_peers :: "'a set"
  blocked_msgs :: "'a \<rightharpoonup> ('p, 'd, 'c, 'o) message list"
  peer_to_ipath :: "'a \<rightharpoonup> nat"
  forward :: bool
  num_workers :: nat
  num_stores :: nat
  trace :: "('a, 'p, 'd, 'c) policy_event list"

definition emit ::
  "('a, 'p, 'd, 'c) policy_event list \<Rightarrow> ('a, 'p, 'd, 'c, 'o) core_policy \<Rightarrow>
   ('a, 'p, 'd, 'c, 'o) core_policy" where
  "emit es s = s\<lparr>trace := trace s @ es\<rparr>"

definition before_handle_batch ::
  "nat \<Rightarrow> 'a \<Rightarrow> ('a, 'p, 'd, 'c, 'o) core_policy \<Rightarrow> ('a, 'p, 'd, 'c, 'o) core_policy" where
  "before_handle_batch slot h s = emit [Active_sender None, Fan_out_flush, Active_sender (Some h)] s"

definition after_handle_batch ::
  "nat \<Rightarrow> 'a \<Rightarrow> ('a, 'p, 'd, 'c, 'o) core_policy \<Rightarrow> ('a, 'p, 'd, 'c, 'o) core_policy" where
  "after_handle_batch slot h s = emit [Fan_out_flush, Active_sender None] s"

definition block_peer ::
  "'a \<Rightarrow> ('a, 'p, 'd, 'c, 'o) core_policy \<Rightarrow> ('a, 'p, 'd, 'c, 'o) core_policy" where
  "block_peer peer s = s\<lparr>blocked_peers := insert peer (blocked_peers s)\<rparr>"

text \<open>
  \<open>ends_with(s, ending)\<close>: \<open>std::equal\<close> over the reversed \<open>ending\<close> and the start of the
  reversed \<open>s\<close>.
\<close>

definition ends_with :: "string \<Rightarrow> string \<Rightarrow> bool" where
  "ends_with s ending =
     (if length ending > length s then False
      else rev ending = take (length ending) (rev s))"

text \<open>
  The body of the loop of \<open>handle_batch\<close> over a peer batch, for one node message: the
  local push, then the three tests before the push to the peers. \<open>--msg.ttl\<close> decrements
  the 16-bit TTL in place. The constant \<open>topics::clone_suffix\<close> is a parameter.
\<close>

definition forward_message ::
  "string \<Rightarrow> bool \<Rightarrow> nat \<Rightarrow> nat \<Rightarrow> ('p, 'd, 'c) peer_message \<Rightarrow> ('a, 'p, 'd, 'c) policy_event list" where
  "forward_message clone_suffix fwd workers stores msg =
     (let (t, local) =
            (case content msg of
               Data_message dm \<Rightarrow> (fst dm, if workers > 0 then [Workers_push dm] else [])
             | Command_message cm \<Rightarrow> (fst cm, if stores > 0 then [Stores_push cm] else []))
      in if \<not> fwd then local
         else if ends_with t clone_suffix then local
         else if ttl msg - 1 = 0 then local
         else local @ [Peers_push (msg\<lparr>ttl := ttl msg - 1\<rparr>)])"

definition handle_batch ::
  "string \<Rightarrow> ('o \<Rightarrow> ('a, 'p, 'd, 'c, 'o) core_policy \<Rightarrow> ('a, 'p, 'd, 'c, 'o) core_policy) \<Rightarrow>
   nat \<Rightarrow> 'a \<Rightarrow> ('p, 'd, 'c, 'o) message \<Rightarrow> ('a, 'p, 'd, 'c, 'o) core_policy \<Rightarrow>
   ('a, 'p, 'd, 'c, 'o) core_policy" where
  "handle_batch clone_suffix try_handle slot peer xs s =
     (case xs of
        Peer_batch msgs \<Rightarrow>
          if peer \<in> blocked_peers s
          then s\<lparr>blocked_msgs := (blocked_msgs s)
                   (peer \<mapsto> (case blocked_msgs s peer of None \<Rightarrow> [] | Some bmsgs \<Rightarrow> bmsgs) @ [xs])\<rparr>
          else emit (concat (map (forward_message clone_suffix (forward s) (num_workers s)
                                    (num_stores s)) msgs)) s
      | Other_batch x \<Rightarrow> try_handle x s)"

text \<open>The sequence the stream manager runs for an inbound batch, and the replay loop too.\<close>

definition deliver ::
  "string \<Rightarrow> ('o \<Rightarrow> ('a, 'p, 'd, 'c, 'o) core_policy \<Rightarrow> ('a, 'p, 'd, 'c, 'o) core_policy) \<Rightarrow>
   nat \<Rightarrow> 'a \<Rightarrow> ('p, 'd, 'c, 'o) message \<Rightarrow> ('a, 'p, 'd, 'c, 'o) core_policy \<Rightarrow>
   ('a, 'p, 'd, 'c, 'o) core_policy" where
  "deliver clone_suffix try_handle slot h batch s =
     after_handle_batch slot h
       (handle_batch clone_suffix try_handle slot h batch (before_handle_batch slot h s))"

definition unblock_peer ::
  "string \<Rightarrow> ('o \<Rightarrow> ('a, 'p, 'd, 'c, 'o) core_policy \<Rightarrow> ('a, 'p, 'd, 'c, 'o) core_policy) \<Rightarrow>
   'a \<Rightarrow> ('a, 'p, 'd, 'c, 'o) core_policy \<Rightarrow> ('a, 'p, 'd, 'c, 'o) core_policy" where
  "unblock_peer clone_suffix try_handle peer s =
     (let s1 = s\<lparr>blocked_peers := blocked_peers s - {peer}\<rparr>
      in case blocked_msgs s1 peer of
           None \<Rightarrow> s1
         | Some batches \<Rightarrow>
             (case peer_to_ipath s1 peer of
                None \<Rightarrow> s1\<lparr>blocked_msgs := (blocked_msgs s1)(peer := None)\<rparr>
              | Some slot \<Rightarrow>
                  let s2 = fold (deliver clone_suffix try_handle slot peer) batches s1
                  in s2\<lparr>blocked_msgs := (blocked_msgs s2)(peer := None)\<rparr>))"

text \<open>
  What a peer batch from an unblocked \<open>h\<close> adds to the trace, and the batches buffered for
  a peer (none when the map has no entry).
\<close>

definition batch_events ::
  "string \<Rightarrow> ('a, 'p, 'd, 'c, 'o) core_policy \<Rightarrow> 'a \<Rightarrow> ('p, 'd, 'c) peer_message list \<Rightarrow>
   ('a, 'p, 'd, 'c) policy_event list" where
  "batch_events clone_suffix s h msgs =
     [Active_sender None, Fan_out_flush, Active_sender (Some h)]
     @ concat (map (forward_message clone_suffix (forward s) (num_workers s) (num_stores s)) msgs)
     @ [Fan_out_flush, Active_sender None]"

definition buffered :: "('a, 'p, 'd, 'c, 'o) core_policy \<Rightarrow> 'a \<Rightarrow> ('p, 'd, 'c, 'o) message list" where
  "buffered s h = (case blocked_msgs s h of None \<Rightarrow> [] | Some bmsgs \<Rightarrow> bmsgs)"

section \<open>The multipath container\<close>

text \<open>
  A \<open>multipath<PeerId>\<close> object with its four members: \<open>id_\<close>, the array that \<open>nodes_\<close>
  points to (the empty list for \<open>nullptr\<close>), \<open>size_\<close> and \<open>reserved_\<close>. The children of
  a node are the first \<open>size_\<close> elements of the array; the elements behind them are
  allocated objects too (default-constructed by \<open>make_unique<multipath[]>\<close>, or left over
  from earlier use) and are kept in the model, because \<open>append\<close> reuses them. An
  iterator is the index of an element. The result \<open>None\<close> of an operation stands for
  undefined behaviour of the C++ code. An object is passed by value here, which fits
  \<open>emplace_node\<close> and \<open>splice\<close>: they take ids and touch one object and what is below
  it. The assignment between two objects, and objects that were moved from, are the
  subject of a later section.
\<close>

datatype 'p multipath =
  Multipath (id_m: 'p) (nodes_m: "'p multipath list") (size_m: nat) (reserved_m: nat)

definition block_size :: nat where
  "block_size = 16"

text \<open>The default constructor and \<open>explicit multipath(PeerId id)\<close>.\<close>

definition default_multipath :: "'p::default multipath" where
  "default_multipath = Multipath default [] 0 0"

definition multipath_of :: "'p \<Rightarrow> 'p multipath" where
  "multipath_of i = Multipath i [] 0 0"

text \<open>
  The move assignment \<open>this = std::move(other)\<close> swaps \<open>id_\<close> and \<open>nodes_\<close> and copies
  \<open>size_\<close> and \<open>reserved_\<close>; the result is the pair of \<open>this\<close> and \<open>other\<close> afterwards.
\<close>

definition move_assign :: "'p multipath \<Rightarrow> 'p multipath \<Rightarrow> 'p multipath \<times> 'p multipath" where
  "move_assign this other =
     (Multipath (id_m other) (nodes_m other) (size_m other) (reserved_m other),
      Multipath (id_m this) (nodes_m this) (size_m other) (reserved_m other))"

text \<open>
  \<open>std::move(first, last, d_first)\<close>: move-assigns the elements of a range to the start of
  a destination array, front to back.
\<close>

fun move_range :: "'p multipath list \<Rightarrow> 'p multipath list \<Rightarrow> 'p multipath list" where
  "move_range [] dst = dst"
| "move_range (x # xs) [] = []"
| "move_range (x # xs) (d # ds) = fst (move_assign d x) # move_range xs ds"

text \<open>
  \<open>grow_if_needed\<close> for a \<open>PeerId\<close> with a non-throwing move assignment (\<open>std::string\<close>,
  \<open>caf::node_id\<close>): a full array is replaced by a new one with \<open>block_size\<close> more
  elements, into which the children are moved; the old array is deleted.
\<close>

definition grow_if_needed :: "'p::default multipath \<Rightarrow> 'p multipath" where
  "grow_if_needed m =
     (if size_m m = reserved_m m
      then Multipath (id_m m)
             (move_range (take (size_m m) (nodes_m m))
                (replicate (reserved_m m + block_size) default_multipath))
             (size_m m) (reserved_m m + block_size)
      else m)"

text \<open>
  \<open>append\<close>: grows if needed, then writes the id into the element behind the children.
  Only \<open>id_\<close> of that element is assigned.
\<close>

definition append_node :: "'p \<Rightarrow> 'p::default multipath \<Rightarrow> nat \<times> 'p multipath" where
  "append_node i m =
     (let m1 = grow_if_needed m;
          ptr = size_m m1;
          slot = nodes_m m1 ! ptr
      in (ptr,
          Multipath (id_m m1)
            ((nodes_m m1)[ptr := Multipath i (nodes_m slot) (size_m slot) (reserved_m slot)])
            (size_m m1 + 1) (reserved_m m1)))"

text \<open>
  \<open>std::move_backward(pos, last, last + 1)\<close>: move-assigns the elements of \<open>[pos, last)\<close>
  one place to the right, back to front; \<open>end_i\<close> is the index of the last source
  element plus one, and the destination of that element.
\<close>

function move_backward :: "nat \<Rightarrow> nat \<Rightarrow> 'p multipath list \<Rightarrow> 'p multipath list" where
  "move_backward pos end_i buf =
     (if pos < end_i
      then let (d, s) = move_assign (buf ! end_i) (buf ! (end_i - 1))
           in move_backward pos (end_i - 1) (buf[end_i := d, end_i - 1 := s])
      else buf)"
  by pat_completeness auto
termination
  by (relation "measure (\<lambda>(pos, end_i, buf). end_i - pos)") auto

text \<open>
  \<open>insert_at(pos, id)\<close> calls \<open>grow_if_needed\<close> first. When the array is full, that call
  replaces and deletes the array that \<open>pos\<close> points into, and the range
  \<open>[pos, nodes_end())\<close> passed to \<open>std::move_backward\<close> and the assignment through \<open>pos\<close>
  are undefined. Otherwise the children from \<open>pos\<close> on move one place to the right and a
  fresh node with the id is move-assigned to \<open>pos\<close>.
\<close>

definition insert_at :: "nat \<Rightarrow> 'p \<Rightarrow> 'p::default multipath \<Rightarrow> (nat \<times> 'p multipath) option" where
  "insert_at pos i m =
     (if size_m m = reserved_m m then None
      else
        let buf = move_backward pos (size_m m) (nodes_m m);
            buf1 = buf[pos := fst (move_assign (buf ! pos) (multipath_of i))]
        in Some (pos, Multipath (id_m m) buf1 (size_m m + 1) (reserved_m m)))"

text \<open>
  \<open>std::lower_bound\<close> over the children with \<open>node_less\<close>: the first child whose id is
  not below the given one (the children are partitioned by that test when they are
  sorted by id).
\<close>

definition lower_bound :: "'p::linorder \<Rightarrow> 'p multipath \<Rightarrow> nat" where
  "lower_bound i m = length (takeWhile (\<lambda>x. id_m x < i) (take (size_m m) (nodes_m m)))"

definition emplace_node ::
  "'p \<Rightarrow> 'p::{linorder,default} multipath \<Rightarrow> (nat \<times> bool \<times> 'p multipath) option" where
  "emplace_node i m =
     (let insertion_point = lower_bound i m
      in if insertion_point = size_m m
         then (let (pos, m1) = append_node i m in Some (pos, True, m1))
         else if id_m (nodes_m m ! insertion_point) = i
         then Some (insertion_point, False, m)
         else (case insert_at insertion_point i m of
                 None \<Rightarrow> None
               | Some (pos, m1) \<Rightarrow> Some (pos, True, m1)))"

text \<open>Writing a child back through the iterator that \<open>emplace_node\<close> returned.\<close>

definition put_node :: "nat \<Rightarrow> 'p multipath \<Rightarrow> 'p multipath \<Rightarrow> 'p multipath" where
  "put_node pos child m =
     Multipath (id_m m) ((nodes_m m)[pos := child]) (size_m m) (reserved_m m)"

fun splice_cont :: "'p list \<Rightarrow> 'p::{linorder,default} multipath \<Rightarrow> 'p multipath option" where
  "splice_cont [] m = None"
| "splice_cont (x # rest) m =
     (case emplace_node x m of
        None \<Rightarrow> None
      | Some (pos, inserted, m1) \<Rightarrow>
          if rest \<noteq> []
          then (case splice_cont rest (nodes_m m1 ! pos) of
                  None \<Rightarrow> None
                | Some child \<Rightarrow> Some (put_node pos child m1))
          else Some m1)"

fun splice :: "'p list \<Rightarrow> 'p::{linorder,default} multipath \<Rightarrow> (bool \<times> 'p multipath) option" where
  "splice [] m = Some (True, m)"
| "splice [x] m = (if x \<noteq> id_m m then Some (False, m) else Some (True, m))"
| "splice (x # y # rest) m =
     (if x \<noteq> id_m m then Some (False, m)
      else case emplace_node y m of
             None \<Rightarrow> None
           | Some (pos, inserted, m1) \<Rightarrow>
               if rest = [] then Some (True, m1)
               else (case splice_cont rest (nodes_m m1 ! pos) of
                       None \<Rightarrow> None
                     | Some child \<Rightarrow> Some (True, put_node pos child m1)))"

text \<open>
  The constructor from a linear path \<open>[first, last)\<close>: the first element is the id of
  the root, each following element is emplaced below the node of the one before. An empty
  range violates the precondition.
\<close>

fun emplace_chain :: "'p list \<Rightarrow> 'p::{linorder,default} multipath \<Rightarrow> 'p multipath option" where
  "emplace_chain [] m = Some m"
| "emplace_chain (x # rest) m =
     (case emplace_node x m of
        None \<Rightarrow> None
      | Some (pos, inserted, m1) \<Rightarrow>
          (case emplace_chain rest (nodes_m m1 ! pos) of
             None \<Rightarrow> None
           | Some child \<Rightarrow> Some (put_node pos child m1)))"

fun from_linear :: "'p::{linorder,default} list \<Rightarrow> 'p multipath option" where
  "from_linear [] = None"
| "from_linear (x # rest) = emplace_chain rest (multipath_of x)"

text \<open>
  \<open>equals\<close>: the ids are equal and \<open>std::equal\<close> holds of the two ranges of children,
  that is, they have the same length and are pairwise \<open>equals\<close>.
\<close>

fun equals :: "'p multipath \<Rightarrow> 'p multipath \<Rightarrow> bool"
  and equals_nodes :: "nat \<Rightarrow> 'p multipath list \<Rightarrow> 'p multipath list \<Rightarrow> bool" where
  "equals (Multipath i ns s r) other =
     (i = id_m other \<and> s = size_m other \<and> equals_nodes s ns (nodes_m other))"
| "equals_nodes 0 xs ys = True"
| "equals_nodes (Suc n) (x # xs) (y # ys) = (equals x y \<and> equals_nodes n xs ys)"
| "equals_nodes (Suc n) [] ys = False"
| "equals_nodes (Suc n) (x # xs) [] = False"

text \<open>
  The invariant of the container: on every element of every array, \<open>reserved_\<close> is the
  length of the array, \<open>size_\<close> does not exceed it, and the children are strictly
  increasing by id.
\<close>

fun mp_inv :: "'p::linorder multipath \<Rightarrow> bool" where
  "mp_inv (Multipath i ns s r) =
     (r = length ns \<and> s \<le> r \<and> sorted_wrt (<) (map id_m (take s ns))
      \<and> (\<forall>c \<in> set ns. mp_inv c))"

text \<open>The range \<open>nodes()\<close>: the children, from \<open>nodes_begin()\<close> to \<open>nodes_end()\<close>.\<close>

definition nodes :: "'p multipath \<Rightarrow> 'p multipath list" where
  "nodes m = take (size_m m) (nodes_m m)"

text \<open>
  What structural equality compares: the id of a node and, in order, the same of its
  children.
\<close>

datatype 'p tree = Tree 'p "'p tree list"

fun shape :: "'p multipath \<Rightarrow> 'p tree"
  and shapes :: "nat \<Rightarrow> 'p multipath list \<Rightarrow> 'p tree list" where
  "shape (Multipath i ns s r) = Tree i (shapes s ns)"
| "shapes 0 ns = []"
| "shapes (Suc n) [] = []"
| "shapes (Suc n) (x # xs) = shape x # shapes n xs"

text \<open>
  Emplacing a list of ids below one node, and the node 100 with the sixteen children
  2, 4, ..., 32, whose array is full.
\<close>

fun emplace_all :: "'p list \<Rightarrow> 'p::{linorder,default} multipath \<Rightarrow> 'p multipath option" where
  "emplace_all [] m = Some m"
| "emplace_all (x # rest) m =
     (case emplace_node x m of None \<Rightarrow> None | Some (pos, inserted, m1) \<Rightarrow> emplace_all rest m1)"

definition full_node :: "nat multipath" where
  "full_node = Multipath 100 (map multipath_of [2, 4, 6, 8, 10, 12, 14, 16, 18, 20, 22, 24, 26, 28, 30, 32]) 16 16"

text \<open>The chain that the constructor builds from the linear path 7, 8, 9.\<close>

definition chain_789 :: "nat multipath" where
  "chain_789 =
     Multipath 7
       (Multipath 8 (Multipath 9 [] 0 0 # replicate 15 default_multipath) 1 16
        # replicate 15 default_multipath) 1 16"

section \<open>Multipath objects in storage\<close>

text \<open>
  The assignment operators take a reference to a second object. That object can be the
  object assigned to, a node below it or a node above it, and the target keeps its array
  over the assignment; what the code does then depends on which objects share storage.
  Here the objects therefore live in a store. An object holds its four members, \<open>nodes_\<close>
  being the address of an array or \<open>nullptr\<close> (\<open>None\<close>). A reference is a named object
  (\<open>Var\<close>) or the element \<open>nodes + i\<close> of an array (\<open>Elem\<close>). The store holds the named
  objects and, by address, the arrays; the entry of a deleted array is \<open>None\<close>, and an
  address is never given out twice, so a pointer into a deleted array is recognized.
  An operation has the result \<open>None\<close> (\<open>Undefined\<close> for the copy assignment) where the
  C++ code has undefined behaviour: an access through \<open>nullptr\<close>, into a deleted array or
  beyond the end of an array.
\<close>

type_synonym addr = nat

datatype 'p object =
  Object (id_o: 'p) (nodes_o: "addr option") (size_o: nat) (reserved_o: nat)

datatype ref = Var nat | Elem "addr option" nat

datatype 'p heap = Heap (vars: "'p object list") (arrays: "'p object list option list")

text \<open>A default-constructed object: the elements of a new array.\<close>

definition default_object :: "'p::default object" where
  "default_object = Object default None 0 0"

definition array_at :: "'p heap \<Rightarrow> addr \<Rightarrow> 'p object list option" where
  "array_at h a = (if a < length (arrays h) then arrays h ! a else None)"

text \<open>Reading and writing an object through a reference.\<close>

fun deref :: "'p heap \<Rightarrow> ref \<Rightarrow> 'p object option" where
  "deref h (Var v) = (if v < length (vars h) then Some (vars h ! v) else None)"
| "deref h (Elem None i) = None"
| "deref h (Elem (Some a) i) =
     (case array_at h a of
        None \<Rightarrow> None
      | Some xs \<Rightarrow> if i < length xs then Some (xs ! i) else None)"

fun store :: "ref \<Rightarrow> 'p object \<Rightarrow> 'p heap \<Rightarrow> 'p heap option" where
  "store (Var v) x h =
     (if v < length (vars h) then Some (Heap ((vars h)[v := x]) (arrays h)) else None)"
| "store (Elem None i) x h = None"
| "store (Elem (Some a) i) x h =
     (case array_at h a of
        None \<Rightarrow> None
      | Some xs \<Rightarrow>
          if i < length xs then Some (Heap (vars h) ((arrays h)[a := Some (xs[i := x])]))
          else None)"

text \<open>\<open>std::make_unique<multipath[]>(n)\<close>: a new array of \<open>n\<close> default-constructed objects.\<close>

definition new_array :: "nat \<Rightarrow> 'p::default heap \<Rightarrow> addr \<times> 'p heap" where
  "new_array n h =
     (length (arrays h), Heap (vars h) (arrays h @ [Some (replicate n default_object)]))"

text \<open>
  \<open>delete[]\<close> on a list of pointers: the destructor of each element of a deleted array
  deletes the array of that element in turn. Deleting \<open>nullptr\<close> does nothing; deleting
  an array twice is undefined. The number of arrays in the store bounds the recursion.
\<close>

definition live :: "'p heap \<Rightarrow> nat" where
  "live h = length (filter (\<lambda>x. x \<noteq> None) (arrays h))"

function delete_arrays :: "addr option list \<Rightarrow> 'p heap \<Rightarrow> 'p heap option" where
  "delete_arrays [] h = Some h"
| "delete_arrays (None # rest) h = delete_arrays rest h"
| "delete_arrays (Some a # rest) h =
     (case array_at h a of
        None \<Rightarrow> None
      | Some xs \<Rightarrow> delete_arrays (map nodes_o xs @ rest) (Heap (vars h) ((arrays h)[a := None])))"
  by pat_completeness auto
termination
proof (relation "measures [\<lambda>(ps, h). live h, \<lambda>(ps, h). length ps]", goal_cases)
  case 1
  show ?case by simp
next
  case (2 rest h)
  show ?case by simp
next
  case (3 a rest h xs)
  have less: "i < length ys \<Longrightarrow> ys ! i \<noteq> None \<Longrightarrow>
      length (filter (\<lambda>x. x \<noteq> None) (ys[i := None]))
        < length (filter (\<lambda>x. x \<noteq> None) ys)"
    for i and ys :: "'a object list option list"
  proof (induction ys arbitrary: i)
    case Nil
    then show ?case by simp
  next
    case (Cons y ys)
    show ?case
    proof (cases i)
      case 0
      with Cons.prems show ?thesis by (simp add: le_imp_less_Suc)
    next
      case (Suc j)
      with Cons show ?thesis by simp
    qed
  qed
  from 3 have "a < length (arrays h)" and "arrays h ! a \<noteq> None"
    by (auto simp: array_at_def split: if_splits)
  then have "live (Heap (vars h) ((arrays h)[a := None])) < live h"
    unfolding live_def heap.sel by (rule less)
  then show ?case by simp
qed

text \<open>
  The move assignment \<open>*this = std::move(other)\<close>: \<open>id_\<close> and \<open>nodes_\<close> are swapped,
  \<open>size_\<close> and \<open>reserved_\<close> are copied; \<open>other\<close> keeps its own \<open>size_\<close> and \<open>reserved_\<close>
  beside the \<open>nodes_\<close> it received.
\<close>

definition move_assign_h :: "ref \<Rightarrow> ref \<Rightarrow> 'p heap \<Rightarrow> 'p heap option" where
  "move_assign_h this other h = do {
     t \<leftarrow> deref h this;
     s \<leftarrow> deref h other;
     h1 \<leftarrow> store this (Object (id_o s) (nodes_o s) (size_o s) (reserved_o s)) h;
     store other (Object (id_o t) (nodes_o t) (size_o s) (reserved_o s)) h1
   }"

text \<open>
  \<open>std::move(first, last, d_first)\<close> over \<open>n\<close> elements of the array \<open>src\<close> into the
  array \<open>dst\<close>, front to back.
\<close>

fun move_range_h ::
  "nat \<Rightarrow> addr option \<Rightarrow> addr option \<Rightarrow> nat \<Rightarrow> 'p heap \<Rightarrow> 'p heap option" where
  "move_range_h 0 src dst i h = Some h"
| "move_range_h (Suc n) src dst i h = do {
     h1 \<leftarrow> move_assign_h (Elem dst i) (Elem src i) h;
     move_range_h n src dst (Suc i) h1
   }"

text \<open>
  \<open>grow_if_needed\<close> (for a \<open>PeerId\<close> with a non-throwing move assignment): when the array
  is full, the children are moved into a new array with \<open>block_size\<close> more elements,
  \<open>nodes_\<close> and \<open>reserved_\<close> are set, and the old array is deleted when \<open>tmp\<close> goes out of
  scope.
\<close>

definition grow_if_needed_h :: "ref \<Rightarrow> 'p::default heap \<Rightarrow> 'p heap option" where
  "grow_if_needed_h this h = do {
     t \<leftarrow> deref h this;
     if size_o t = reserved_o t
     then do {
       let (tmp, h1) = new_array (reserved_o t + block_size) h;
       h2 \<leftarrow> move_range_h (size_o t) (nodes_o t) (Some tmp) 0 h1;
       t2 \<leftarrow> deref h2 this;
       h3 \<leftarrow> store this
               (Object (id_o t2) (Some tmp) (size_o t2) (reserved_o t2 + block_size)) h2;
       delete_arrays [nodes_o t2] h3
     }
     else Some h
   }"

text \<open>
  \<open>append\<close>: after \<open>grow_if_needed\<close>, \<open>ptr = nodes_ + size_\<close>, \<open>++size_\<close>, and the id is
  written through \<open>ptr\<close>; the other members of that element stay as they are.
\<close>

definition append_h :: "ref \<Rightarrow> 'p \<Rightarrow> 'p::default heap \<Rightarrow> (ref \<times> 'p heap) option" where
  "append_h this i h = do {
     h1 \<leftarrow> grow_if_needed_h this h;
     t \<leftarrow> deref h1 this;
     let ptr = Elem (nodes_o t) (size_o t);
     h2 \<leftarrow> store this (Object (id_o t) (nodes_o t) (size_o t + 1) (reserved_o t)) h1;
     slot \<leftarrow> deref h2 ptr;
     h3 \<leftarrow> store ptr (Object i (nodes_o slot) (size_o slot) (reserved_o slot)) h2;
     Some (ptr, h3)
   }"

text \<open>
  \<open>std::move_backward(pos, last, last + 1)\<close> within the array \<open>a\<close>: \<open>n\<close> elements, back
  to front, each to the place \<open>d_last - 1\<close>.
\<close>

fun move_backward_h :: "nat \<Rightarrow> addr option \<Rightarrow> nat \<Rightarrow> 'p heap \<Rightarrow> 'p heap option" where
  "move_backward_h 0 a d_last h = Some h"
| "move_backward_h (Suc n) a d_last h = do {
     h1 \<leftarrow> move_assign_h (Elem a d_last) (Elem a (d_last - 1)) h;
     move_backward_h n a (d_last - 1) h1
   }"

text \<open>
  \<open>insert_at(pos, id)\<close>: after \<open>grow_if_needed\<close>, the range \<open>[pos, nodes_end())\<close> is a
  range only if \<open>pos\<close> still points into the array of the node. The temporary
  \<open>multipath{id}\<close> is move-assigned to \<open>*pos\<close>; it takes the former \<open>nodes_\<close> of that
  element and deletes it in its destructor.
\<close>

fun insert_at_h ::
  "ref \<Rightarrow> ref \<Rightarrow> 'p \<Rightarrow> 'p::default heap \<Rightarrow> (ref \<times> 'p heap) option" where
  "insert_at_h this (Var v) i h = None"
| "insert_at_h this (Elem a pos) i h = do {
     h1 \<leftarrow> grow_if_needed_h this h;
     t \<leftarrow> deref h1 this;
     if a \<noteq> nodes_o t then None
     else do {
       h2 \<leftarrow> move_backward_h (size_o t - pos) a (size_o t) h1;
       old \<leftarrow> deref h2 (Elem a pos);
       h3 \<leftarrow> store (Elem a pos) (Object i None 0 0) h2;
       h4 \<leftarrow> delete_arrays [nodes_o old] h3;
       t4 \<leftarrow> deref h4 this;
       h5 \<leftarrow> store this (Object (id_o t4) (nodes_o t4) (size_o t4 + 1) (reserved_o t4)) h4;
       Some (Elem a pos, h5)
     }
   }"

text \<open>
  The range \<open>[nodes_begin(), nodes_end())\<close> of an object, read from the store; with
  \<open>size_\<close> 0 it is empty whatever \<open>nodes_\<close> is.
\<close>

definition nodes_h :: "'p heap \<Rightarrow> 'p object \<Rightarrow> 'p object list option" where
  "nodes_h h t =
     (if size_o t = 0 then Some []
      else case nodes_o t of
             None \<Rightarrow> None
           | Some a \<Rightarrow>
               (case array_at h a of
                  None \<Rightarrow> None
                | Some xs \<Rightarrow> if size_o t \<le> length xs then Some (take (size_o t) xs) else None))"

text \<open>
  \<open>std::lower_bound\<close> with \<open>node_less\<close>: the index of the first element whose id is not
  below the given one. The algorithm requires a range that is partitioned by that test.
\<close>

definition lower_bound_h :: "'p::linorder \<Rightarrow> 'p object list \<Rightarrow> nat option" where
  "lower_bound_h i xs =
     (if list_all (\<lambda>x. \<not> id_o x < i) (dropWhile (\<lambda>x. id_o x < i) xs)
      then Some (length (takeWhile (\<lambda>x. id_o x < i) xs))
      else None)"

definition emplace_node_h ::
  "ref \<Rightarrow> 'p \<Rightarrow> 'p::{linorder,default} heap \<Rightarrow> (ref \<times> bool \<times> 'p heap) option" where
  "emplace_node_h this i h = do {
     t \<leftarrow> deref h this;
     xs \<leftarrow> nodes_h h t;
     insertion_point \<leftarrow> lower_bound_h i xs;
     if insertion_point = size_o t
     then do { (ptr, h1) \<leftarrow> append_h this i h; Some (ptr, True, h1) }
     else if id_o (xs ! insertion_point) = i
     then Some (Elem (nodes_o t) insertion_point, False, h)
     else do {
       (ptr, h1) \<leftarrow> insert_at_h this (Elem (nodes_o t) insertion_point) i h;
       Some (ptr, True, h1)
     }
   }"

text \<open>
  The copy assignment \<open>*this = other\<close>. Its first statements are \<open>size_ = 0\<close> and
  \<open>id_ = other.id_\<close>; then the range-based \<open>for\<close> takes \<open>other.nodes().begin()\<close> and
  \<open>end()\<close> once, that is \<open>other.nodes_\<close> and \<open>other.size_\<close> as they are by then.
\<close>

definition begin_assign ::
  "ref \<Rightarrow> ref \<Rightarrow> 'p heap \<Rightarrow> (addr option \<times> nat \<times> 'p heap) option" where
  "begin_assign this other h = do {
     t \<leftarrow> deref h this;
     h1 \<leftarrow> store this (Object (id_o t) (nodes_o t) 0 (reserved_o t)) h;
     s \<leftarrow> deref h1 other;
     t1 \<leftarrow> deref h1 this;
     h2 \<leftarrow> store this (Object (id_o s) (nodes_o t1) (size_o t1) (reserved_o t1)) h1;
     s2 \<leftarrow> deref h2 other;
     Some (nodes_o s2, size_o s2, h2)
   }"

text \<open>The first statement of the loop body: \<open>emplace_node(node.id()).first\<close>.\<close>

definition emplace_copy ::
  "ref \<Rightarrow> ref \<Rightarrow> 'p::{linorder,default} heap \<Rightarrow> (ref \<times> 'p heap) option" where
  "emplace_copy this node h = do {
     n \<leftarrow> deref h node;
     (child, inserted, h1) \<leftarrow> emplace_node_h this (id_o n) h;
     Some (child, h1)
   }"

text \<open>
  The loop runs over the elements \<open>first + i\<close> of the range, and its second statement
  \<open>child = node\<close> is the copy assignment again. Nothing bounds the depth of that
  recursion when the objects share storage, so the model counts it down from a given
  depth \<open>fuel\<close> and tells a run that exceeds it (\<open>Out_of_fuel\<close>) from undefined behaviour.
\<close>

datatype 'a result = Undefined | Out_of_fuel | Returns 'a

fun copy_assign :: "nat \<Rightarrow> ref \<Rightarrow> ref \<Rightarrow> 'p::{linorder,default} heap \<Rightarrow> 'p heap result"
  and copy_nodes ::
    "nat \<Rightarrow> ref \<Rightarrow> addr option \<Rightarrow> nat \<Rightarrow> nat \<Rightarrow> 'p heap \<Rightarrow> 'p heap result" where
  "copy_assign 0 this other h = Out_of_fuel"
| "copy_assign (Suc fuel) this other h =
     (case begin_assign this other h of
        None \<Rightarrow> Undefined
      | Some (first, n, h1) \<Rightarrow> copy_nodes fuel this first 0 n h1)"
| "copy_nodes fuel this first i 0 h = Returns h"
| "copy_nodes fuel this first i (Suc n) h =
     (case emplace_copy this (Elem first i) h of
        None \<Rightarrow> Undefined
      | Some (child, h1) \<Rightarrow>
          (case copy_assign fuel child (Elem first i) h1 of
             Returns h2 \<Rightarrow> copy_nodes fuel this first (Suc i) n h2
           | Undefined \<Rightarrow> Undefined
           | Out_of_fuel \<Rightarrow> Out_of_fuel))"

text \<open>
  A new named object with default members, and the copy constructor, which assigns to
  such an object.
\<close>

definition new_object :: "'p::default heap \<Rightarrow> ref \<times> 'p heap" where
  "new_object h = (Var (length (vars h)), Heap (vars h @ [default_object]) (arrays h))"

definition copy_construct ::
  "nat \<Rightarrow> ref \<Rightarrow> 'p::{linorder,default} heap \<Rightarrow> ref \<times> 'p heap result" where
  "copy_construct fuel other h =
     (let (this, h1) = new_object h in (this, copy_assign fuel this other h1))"

text \<open>
  The constructor from a linear path, as a new named object: \<open>pos\<close> starts at the object
  and moves to the node that \<open>emplace_node\<close> returns.
\<close>

fun emplace_path :: "'p list \<Rightarrow> ref \<Rightarrow> 'p::{linorder,default} heap \<Rightarrow> 'p heap option" where
  "emplace_path [] pos h = Some h"
| "emplace_path (x # rest) pos h = do {
     (child, inserted, h1) \<leftarrow> emplace_node_h pos x h;
     emplace_path rest child h1
   }"

fun construct_linear ::
  "'p list \<Rightarrow> 'p::{linorder,default} heap \<Rightarrow> (ref \<times> 'p heap) option" where
  "construct_linear [] h = None"
| "construct_linear (x # rest) h =
     (let this = Var (length (vars h));
          h1 = Heap (vars h @ [Object x None 0 0]) (arrays h)
      in map_option (Pair this) (emplace_path rest this h1))"

text \<open>Emplacing a list of ids below one object.\<close>

fun emplace_all_h :: "'p list \<Rightarrow> ref \<Rightarrow> 'p::{linorder,default} heap \<Rightarrow> 'p heap option" where
  "emplace_all_h [] this h = Some h"
| "emplace_all_h (x # rest) this h = do {
     (child, inserted, h1) \<leftarrow> emplace_node_h this x h;
     emplace_all_h rest this h1
   }"

text \<open>
  Reading an object back from the store, down to a given depth: \<open>tree_of\<close> gives what
  structural equality compares, \<open>load\<close> the object of the preceding section with its
  whole arrays.
\<close>

fun tree_of :: "nat \<Rightarrow> 'p heap \<Rightarrow> ref \<Rightarrow> 'p tree option" where
  "tree_of 0 h r = None"
| "tree_of (Suc depth) h r = do {
     t \<leftarrow> deref h r;
     ts \<leftarrow> those (map (\<lambda>i. tree_of depth h (Elem (nodes_o t) i)) [0..<size_o t]);
     Some (Tree (id_o t) ts)
   }"

fun load :: "nat \<Rightarrow> 'p heap \<Rightarrow> ref \<Rightarrow> 'p multipath option" where
  "load 0 h r = None"
| "load (Suc depth) h r = do {
     t \<leftarrow> deref h r;
     ns \<leftarrow> (case nodes_o t of
              None \<Rightarrow> Some []
            | Some a \<Rightarrow> do {
                xs \<leftarrow> array_at h a;
                those (map (\<lambda>i. load depth h (Elem (Some a) i)) [0..<length xs])
              });
     Some (Multipath (id_o t) ns (size_o t) (reserved_o t))
   }"

definition tree_after :: "nat \<Rightarrow> ref \<Rightarrow> 'p heap result \<Rightarrow> 'p tree option" where
  "tree_after depth r res = (case res of Returns h \<Rightarrow> tree_of depth h r | _ \<Rightarrow> None)"

text \<open>
  Sample stores: the empty store; a store with the fresh object 100; the store after
  \<open>multipath p{7, 8, 9}\<close> (the object \<open>Var 0\<close>); and that store after \<open>multipath t{1, 2}\<close>
  (\<open>Var 1\<close>), \<open>multipath a\<close> (\<open>Var 2\<close>) and \<open>a = std::move(t)\<close>, in which the moved-from
  \<open>t\<close> has no array but still a \<open>size_\<close> of 1 and a \<open>reserved_\<close> of 16.
\<close>

definition empty_heap :: "nat heap" where
  "empty_heap = Heap [] []"

definition heap_100 :: "nat heap" where
  "heap_100 = Heap [Object 100 None 0 0] []"

definition heap_789 :: "nat heap" where
  "heap_789 =
     Heap [Object 7 (Some 0) 1 16]
       [Some (Object 8 (Some 1) 1 16 # replicate 15 default_object),
        Some (Object 9 None 0 0 # replicate 15 default_object)]"

definition moved_from_heap :: "nat heap" where
  "moved_from_heap =
     Heap [Object 7 (Some 0) 1 16, Object 0 None 1 16, Object 1 (Some 2) 1 16]
       [Some (Object 8 (Some 1) 1 16 # replicate 15 default_object),
        Some (Object 9 None 0 0 # replicate 15 default_object),
        Some (Object 2 None 0 0 # replicate 15 default_object)]"

section \<open>Sample states\<close>

text \<open>The peer 7 with the single neighbor 2 (handle 12) and nothing recorded yet.\<close>

definition one_neighbor :: "(nat, nat) peer_state" where
  "one_neighbor =
     \<lparr>tbl = [(2, \<lparr>hdl = 12, distances = Map.empty\<rparr>)], ttl_m = 0, timestamp_m = 0,
      peer_timestamps = Map.empty, filter_m = [], peer_filters = Map.empty\<rparr>"

text \<open>
  The topology of scenario S2: the neighbors 2 and 3 both record distance 2 to peer 5;
  neighbor 3 also records distance 3 to peer 6.
\<close>

definition first_row :: "(nat, nat) routing_table_row" where
  "first_row = \<lparr>hdl = 12, distances = [5 \<mapsto> 2]\<rparr>"

definition two_neighbors :: "(nat, nat) routing_table" where
  "two_neighbors =
     [(2, first_row), (3, \<lparr>hdl = 13, distances = [5 \<mapsto> 2, 6 \<mapsto> 3]\<rparr>)]"

definition sample_message :: "(nat, nat, nat) node_message" where
  "sample_message = \<lparr>content = Data_message 0, ttl = 5, receivers = [2, 5, 6, 9]\<rparr>"

definition forwarded_message :: "(nat, nat, nat) node_message" where
  "forwarded_message = \<lparr>content = Data_message 0, ttl = 5, receivers = [7, 2]\<rparr>"

definition expired_message :: "(nat, nat, nat) node_message" where
  "expired_message = \<lparr>content = Data_message 0, ttl = 0, receivers = [7, 2]\<rparr>"

definition last_hop_message :: "(nat, nat, nat) node_message" where
  "last_hop_message = \<lparr>content = Data_message 0, ttl = 1, receivers = [7, 2]\<rparr>"

text \<open>
  A policy with forwarding on, one worker path, and the peer 9 on inbound slot 4; node
  messages with TTL 0 and TTL 3; and a policy that holds a buffered batch of the blocked
  peer 9, whose inbound slot is gone.
\<close>

definition quiet_policy :: "(nat, nat, nat, nat, unit) core_policy" where
  "quiet_policy =
     \<lparr>blocked_peers = {}, blocked_msgs = Map.empty, peer_to_ipath = [9 \<mapsto> 4],
      forward = True, num_workers = 1, num_stores = 0, trace = []\<rparr>"

definition expired_peer_message :: "(nat, nat, nat) peer_message" where
  "expired_peer_message = \<lparr>content = Data_message (''t'', 0), ttl = 0, receivers = [7]\<rparr>"

definition fresh_peer_message :: "(nat, nat, nat) peer_message" where
  "fresh_peer_message = \<lparr>content = Data_message (''t'', 0), ttl = 3, receivers = [7]\<rparr>"

definition unplugged_policy :: "(nat, nat, nat, nat, unit) core_policy" where
  "unplugged_policy =
     \<lparr>blocked_peers = {9}, blocked_msgs = [9 \<mapsto> [Peer_batch [fresh_peer_message]]],
      peer_to_ipath = Map.empty, forward = True, num_workers = 1, num_stores = 0, trace = []\<rparr>"

section \<open>Properties of \<open>handle_filter_update\<close>\<close>

lemma handle_filter_update_dropped_iff:
  "(fst (handle_filter_update self path f t s) \<noteq> Handled) =
   (path = [] \<or> f = [] \<or> map_of (tbl s) (last path) = None \<or> self \<in> set path
    \<or> length path > 65535)"
  by (auto simp: handle_filter_update_def Let_def split: option.splits)

lemma handle_filter_update_dropped_unchanged:
  "fst (handle_filter_update self path f t s) \<noteq> Handled \<Longrightarrow>
   snd (handle_filter_update self path f t s) = (s, [])"
  by (auto simp: handle_filter_update_def Let_def split: option.splits if_splits)

lemma handle_filter_update_handled_state:
  assumes "fst (handle_filter_update self path f t s) = Handled"
  shows "peer_filters (fst (snd (handle_filter_update self path f t s))) =
           (if timestamp_of s (hd path) < t then (peer_filters s)(hd path \<mapsto> f)
            else peer_filters s)"
    and "peer_timestamps (fst (snd (handle_filter_update self path f t s))) =
           (peer_timestamps s)(hd path \<mapsto> max t (timestamp_of s (hd path)))"
  using assms
  by (auto simp: handle_filter_update_def Let_def timestamp_of_def max_def hd_append
                 word_gt_0
           split: option.splits if_splits)

text \<open>
  C3. With \<open>origin = path[0]\<close>, an accepted \<open>handle_filter_update\<close> replaces
  \<open>peer_filters[origin]\<close> by the incoming filter if and only if the incoming timestamp
  is strictly greater than the recorded \<open>peer_timestamps[origin]\<close> (a missing entry reads
  as 0); a stale or equal timestamp leaves \<open>peer_filters\<close> unchanged. Afterwards
  \<open>peer_timestamps[origin]\<close> is at least the incoming timestamp, and no recorded
  timestamp has decreased.
\<close>

theorem filter_update_strictly_newer:
  assumes "fst (handle_filter_update self path f t s) = Handled"
  shows "peer_filters (fst (snd (handle_filter_update self path f t s))) =
           (if timestamp_of s (hd path) < t then (peer_filters s)(hd path \<mapsto> f)
            else peer_filters s)
         \<and> t \<le> timestamp_of (fst (snd (handle_filter_update self path f t s))) (hd path)
         \<and> (\<forall>p. timestamp_of s p
                  \<le> timestamp_of (fst (snd (handle_filter_update self path f t s))) p)"
proof -
  let ?s' = "fst (snd (handle_filter_update self path f t s))"
  note st = handle_filter_update_handled_state [OF assms]
  have ts: "timestamp_of ?s' p = (if p = hd path then max t (timestamp_of s p)
                                 else timestamp_of s p)" for p
    unfolding timestamp_of_def [of ?s'] st(2) by (simp add: timestamp_of_def)
  have "t \<le> timestamp_of ?s' (hd path)"
    by (simp add: ts)
  moreover have "\<forall>p. timestamp_of s p \<le> timestamp_of ?s' p"
    by (simp add: ts)
  ultimately show ?thesis
    using st(1) by blast
qed

theorem filter_update_strictly_newer_witness:
  "fst (handle_filter_update 7 [2] [''a''] 5 one_neighbor) = Handled
   \<and> peer_filters (fst (snd (handle_filter_update 7 [2] [''a''] 5 one_neighbor))) 2
       = Some [''a'']
   \<and> (5 :: 64 word)
       \<le> timestamp_of (fst (snd (handle_filter_update 7 [2] [''a''] 5 one_neighbor))) 2"
proof -
  have h: "fst (handle_filter_update 7 [2] [''a''] 5 one_neighbor) = Handled"
    by (simp add: handle_filter_update_def one_neighbor_def)
  have "timestamp_of one_neighbor (hd [2]) < 5"
    by (simp add: timestamp_of_def one_neighbor_def)
  with filter_update_strictly_newer [OF h] h show ?thesis
    by simp
qed

text \<open>
  C4. \<open>handle_filter_update\<close> takes one of its early returns exactly when the path is
  empty, the filter is empty, the last path element has no row in the routing table, the
  own id occurs in the path, or the path is longer than 65535; on such a return the
  state (\<open>tbl\<close>, \<open>ttl\<close>, \<open>peer_filters\<close>, \<open>peer_timestamps\<close>) is unchanged and nothing
  is sent. A path of length exactly 65535 that passes the other checks is accepted.
\<close>

theorem filter_update_rejects_exactly:
  "(fst (handle_filter_update self path f t s) \<noteq> Handled) =
     (path = [] \<or> f = [] \<or> map_of (tbl s) (last path) = None \<or> self \<in> set path
      \<or> length path > 65535)
   \<and> (fst (handle_filter_update self path f t s) \<noteq> Handled \<longrightarrow>
        snd (handle_filter_update self path f t s) = (s, []))
   \<and> (length path = 65535 \<and> f \<noteq> [] \<and> map_of (tbl s) (last path) \<noteq> None
        \<and> self \<notin> set path \<longrightarrow>
        fst (handle_filter_update self path f t s) = Handled)"
proof (intro conjI impI)
  show "(fst (handle_filter_update self path f t s) \<noteq> Handled) =
     (path = [] \<or> f = [] \<or> map_of (tbl s) (last path) = None \<or> self \<in> set path
      \<or> length path > 65535)"
    by (rule handle_filter_update_dropped_iff)
next
  assume "fst (handle_filter_update self path f t s) \<noteq> Handled"
  then show "snd (handle_filter_update self path f t s) = (s, [])"
    by (rule handle_filter_update_dropped_unchanged)
next
  assume h: "length path = 65535 \<and> f \<noteq> [] \<and> map_of (tbl s) (last path) \<noteq> None
        \<and> self \<notin> set path"
  then have "path \<noteq> []" by auto
  with h show "fst (handle_filter_update self path f t s) = Handled"
    using handle_filter_update_dropped_iff [of self path f t s] by auto
qed

theorem filter_update_rejects_exactly_witness:
  "fst (handle_filter_update 7 [] [''a''] 5 one_neighbor) \<noteq> Handled
   \<and> snd (handle_filter_update 7 [] [''a''] 5 one_neighbor) = (one_neighbor, [])
   \<and> length (replicate 65535 (2::nat)) = 65535
   \<and> fst (handle_filter_update 7 (replicate 65535 2) [''a''] 5 one_neighbor) = Handled"
proof -
  have a: "fst (handle_filter_update 7 [] [''a''] 5 one_neighbor) \<noteq> Handled"
    using filter_update_rejects_exactly [of 7 "[]" "[''a'']" 5 one_neighbor] by simp
  then have b: "snd (handle_filter_update 7 [] [''a''] 5 one_neighbor) = (one_neighbor, [])"
    using filter_update_rejects_exactly [of 7 "[]" "[''a'']" 5 one_neighbor] by blast
  have c: "length (replicate 65535 (2::nat)) = 65535 \<and> [''a''] \<noteq> []
           \<and> map_of (tbl one_neighbor) (last (replicate 65535 (2::nat))) \<noteq> None
           \<and> (7::nat) \<notin> set (replicate 65535 2)"
    by (simp add: one_neighbor_def)
  then have "fst (handle_filter_update 7 (replicate 65535 2) [''a''] 5 one_neighbor) = Handled"
    using filter_update_rejects_exactly [of 7 "replicate 65535 2" "[''a'']" 5 one_neighbor]
    by blast
  with a b c show ?thesis by blast
qed

section \<open>Properties of \<open>ship\<close>\<close>

lemma map_emplace_last:
  "\<forall>k' \<in> fst ` set b. k' < k \<Longrightarrow> map_emplace k v b = b @ [(k, v)]"
  by (induction b) auto

lemma buckets_sorted_aux:
  "sorted_wrt (<) (map fst b @ map fst t) \<Longrightarrow>
   fold (\<lambda>(k, row). map_emplace k (hdl row, [])) t b
   = b @ map (\<lambda>(k, row). (k, hdl row, [])) t"
proof (induction t arbitrary: b)
  case Nil
  then show ?case by simp
next
  case (Cons a t)
  obtain k row where a: "a = (k, row)" by (cases a)
  from Cons.prems have lt: "\<forall>k' \<in> fst ` set b. k' < k"
    by (auto simp: a sorted_wrt_append)
  have "sorted_wrt (<) (map fst (b @ [(k, hdl row, [])]) @ map fst t)"
    using Cons.prems by (simp add: a)
  from Cons.IH [OF this] show ?case
    by (simp add: a map_emplace_last [OF lt])
qed

lemma buckets_sorted:
  "sorted_wrt (<) (map fst t) \<Longrightarrow>
   fold (\<lambda>(k, row). map_emplace k (hdl row, [])) t []
   = map (\<lambda>(k, row). (k, hdl row, [])) t"
  using buckets_sorted_aux [of "[]" t] by simp

lemma update_row_keys: "map fst (update_row k f b) = map fst b"
  by (induction b) auto

lemma update_row_distinct:
  "distinct (map fst b) \<Longrightarrow>
   update_row k f b = map (\<lambda>(k', v). if k' = k then (k', f v) else (k', v)) b"
proof (induction b)
  case Nil
  then show ?case by simp
next
  case (Cons a b)
  obtain k' v where a: "a = (k', v)" by (cases a)
  show ?case
  proof (cases "k' = k")
    case True
    with Cons.prems have "\<forall>x \<in> set b. fst x \<noteq> k"
      by (auto simp: a)
    then have "map (\<lambda>(k', v). if k' = k then (k', f v) else (k', v)) b = b"
      by (intro map_idI) auto
    with True show ?thesis by (simp add: a)
  next
    case False
    with Cons show ?thesis by (simp add: a)
  qed
qed

lemma fill_buckets:
  "distinct (map fst b) \<Longrightarrow>
   fold (\<lambda>receiver b.
           case g receiver of
             None \<Rightarrow> b
           | Some k \<Rightarrow> update_row k (\<lambda>(h, bucket). (h, bucket @ [receiver])) b) rs b
   = map (\<lambda>(k, h, bucket). (k, h, bucket @ filter (\<lambda>r. g r = Some k) rs)) b"
proof (induction rs arbitrary: b)
  case Nil
  then show ?case by simp
next
  case (Cons r rs)
  show ?case
  proof (cases "g r")
    case None
    with Cons show ?thesis by simp
  next
    case (Some k)
    let ?b1 = "update_row k (\<lambda>(h, bucket). (h, bucket @ [r])) b"
    have b1: "?b1 = map (\<lambda>(k', v). if k' = k then (k', (\<lambda>(h, bucket). (h, bucket @ [r])) v)
                                     else (k', v)) b"
      by (rule update_row_distinct [OF Cons.prems])
    have d1: "distinct (map fst ?b1)"
      using Cons.prems by (simp add: update_row_keys)
    have "fold (\<lambda>receiver b.
           case g receiver of
             None \<Rightarrow> b
           | Some k \<Rightarrow> update_row k (\<lambda>(h, bucket). (h, bucket @ [receiver])) b) (r # rs) b
       = map (\<lambda>(k, h, bucket). (k, h, bucket @ filter (\<lambda>r. g r = Some k) rs)) ?b1"
      using Cons.IH [OF d1] Some by simp
    also have "\<dots> = map (\<lambda>(k, h, bucket). (k, h, bucket @ filter (\<lambda>r. g r = Some k) (r # rs))) b"
      unfolding b1 map_map using Some by (intro map_cong) auto
    finally show ?thesis .
  qed
qed

lemma ship_closed_form:
  assumes "sorted_wrt (<) (map fst t)"
  shows "ship t msg =
     concat (map (\<lambda>(k, row).
                   if filter (\<lambda>r. get_bucket t r = Some k) (receivers msg) \<noteq> []
                   then [Send_publish (hdl row)
                          (msg\<lparr>receivers := filter (\<lambda>r. get_bucket t r = Some k) (receivers msg)\<rparr>)]
                   else []) t)"
proof -
  have d: "distinct (map fst (map (\<lambda>(k, row). (k, hdl row, [])) t))"
    using assms strict_sorted_iff [of "map fst t"] by (simp add: comp_def case_prod_unfold)
  show ?thesis
    unfolding ship_def Let_def buckets_sorted [OF assms] fill_buckets [OF d] map_map
    by (intro arg_cong [where f = concat] map_cong) auto
qed

lemma candidates_Nil [simp]: "candidates [] x = {}"
  by (simp add: candidates_def)

lemma candidates_Cons:
  "candidates ((k, row) # t) x =
     (case distances row x of None \<Rightarrow> candidates t x | Some d \<Rightarrow> insert (k, d) (candidates t x))"
  by (auto simp: candidates_def split: option.splits)

lemma candidates_keys: "(k, d) \<in> candidates t x \<Longrightarrow> k \<in> fst ` set t"
  by (force simp: candidates_def)

lemma lowest_distance_spec:
  "sorted_wrt (<) (map fst t) \<Longrightarrow> lowest_distance x t (b, d0) = (k :: 'p :: linorder, d) \<Longrightarrow>
   ((k, d) = (b, d0) \<and> (\<forall>(k', d') \<in> candidates t x. d0 \<le> d'))
   \<or> (d < d0 \<and> (k, d) \<in> candidates t x
      \<and> (\<forall>(k', d') \<in> candidates t x. d < d' \<or> (d = d' \<and> k \<le> k')))"
proof (induction t arbitrary: b d0)
  case Nil
  then show ?case by simp
next
  case (Cons a t)
  obtain k0 row0 where a: "a = (k0, row0)" by (cases a)
  from Cons.prems(1) have srt: "sorted_wrt (<) (map fst t)"
    and lt: "\<forall>k' \<in> fst ` set t. k0 < k'"
    by (auto simp: a)
  have lt': "k0 < k'" if "(k', d') \<in> candidates t x" for k' d'
    using lt candidates_keys [OF that] by blast
  show ?case
  proof (cases "distances row0 x")
    case None
    with Cons.prems(2) have "lowest_distance x t (b, d0) = (k, d)"
      by (simp add: a)
    from Cons.IH [OF srt this] show ?thesis
      by (simp add: a candidates_Cons None)
  next
    case (Some d1)
    show ?thesis
    proof (cases "d1 < d0")
      case True
      with Cons.prems(2) Some have "lowest_distance x t (k0, d1) = (k, d)"
        by (simp add: a)
      from Cons.IH [OF srt this] show ?thesis
      proof
        assume h: "(k, d) = (k0, d1) \<and> (\<forall>(k', d') \<in> candidates t x. d1 \<le> d')"
        then have eq: "k = k0" "d = d1" by auto
        have "d < d' \<or> (d = d' \<and> k \<le> k')" if "(k', d') \<in> candidates t x" for k' d'
        proof -
          from h that have "d1 \<le> d'" by auto
          with lt' [OF that] show ?thesis unfolding eq by auto
        qed
        then show ?thesis
          using True by (auto simp: a candidates_Cons Some eq)
      next
        assume h: "d < d1 \<and> (k, d) \<in> candidates t x
          \<and> (\<forall>(k', d') \<in> candidates t x. d < d' \<or> (d = d' \<and> k \<le> k'))"
        then show ?thesis
          using True by (simp add: a candidates_Cons Some)
      qed
    next
      case False
      with Cons.prems(2) Some have "lowest_distance x t (b, d0) = (k, d)"
        by (simp add: a)
      from Cons.IH [OF srt this] show ?thesis
      proof
        assume h: "(k, d) = (b, d0) \<and> (\<forall>(k', d') \<in> candidates t x. d0 \<le> d')"
        then show ?thesis
          using False by (simp add: a candidates_Cons Some)
      next
        assume h: "d < d0 \<and> (k, d) \<in> candidates t x
          \<and> (\<forall>(k', d') \<in> candidates t x. d < d' \<or> (d = d' \<and> k \<le> k'))"
        then show ?thesis
          using False by (simp add: a candidates_Cons Some)
      qed
    qed
  qed
qed

lemma shortest_hop_spec:
  "shortest_hop x t (k0, h0, d0) = (k, h, d) \<Longrightarrow>
   ((k, h, d) = (k0, h0, d0)
      \<and> (\<forall>(k', d') \<in> candidates t x. d0 < d' \<or> (d0 = d' \<and> k0 \<le> k')))
   \<or> ((d < d0 \<or> (d = d0 \<and> k < k0))
      \<and> (\<exists>row. (k, row) \<in> set t \<and> distances row x = Some d \<and> h = hdl row)
      \<and> (\<forall>(k', d') \<in> candidates t x. d < d' \<or> (d = d' \<and> k \<le> k')))"
proof (induction t arbitrary: k0 h0 d0)
  case Nil
  then show ?case by simp
next
  case (Cons a t)
  obtain k1 row1 where a: "a = (k1, row1)" by (cases a)
  show ?case
  proof (cases "distances row1 x")
    case None
    with Cons.prems have "shortest_hop x t (k0, h0, d0) = (k, h, d)"
      by (simp add: a)
    from Cons.IH [OF this] show ?thesis
      by (auto simp: a candidates_Cons None)
  next
    case (Some d1)
    show ?thesis
    proof (cases "d1 < d0 \<or> (d1 = d0 \<and> k1 < k0)")
      case True
      with Cons.prems Some have "shortest_hop x t (k1, hdl row1, d1) = (k, h, d)"
        by (simp add: a)
      from Cons.IH [OF this] show ?thesis
      proof
        assume h: "(k, h, d) = (k1, hdl row1, d1)
          \<and> (\<forall>(k', d') \<in> candidates t x. d1 < d' \<or> (d1 = d' \<and> k1 \<le> k'))"
        then have eq: "k = k1" "d = d1" "h = hdl row1" by auto
        from h have "\<forall>(k', d') \<in> candidates t x. d < d' \<or> (d = d' \<and> k \<le> k')"
          unfolding eq by blast
        moreover have "\<exists>row. (k, row) \<in> set (a # t) \<and> distances row x = Some d \<and> h = hdl row"
          unfolding eq a using Some by auto
        ultimately show ?thesis
          using True unfolding eq by (simp add: a candidates_Cons Some)
      next
        assume h: "(d < d1 \<or> (d = d1 \<and> k < k1))
          \<and> (\<exists>row. (k, row) \<in> set t \<and> distances row x = Some d \<and> h = hdl row)
          \<and> (\<forall>(k', d') \<in> candidates t x. d < d' \<or> (d = d' \<and> k \<le> k'))"
        then have "\<exists>row. (k, row) \<in> set (a # t) \<and> distances row x = Some d \<and> h = hdl row"
          by auto
        moreover from h True have "d < d0 \<or> (d = d0 \<and> k < k0)"
          by auto
        moreover from h have "d < d1 \<or> (d = d1 \<and> k \<le> k1)"
          by auto
        ultimately show ?thesis
          using h by (simp add: a candidates_Cons Some)
      qed
    next
      case False
      with Cons.prems Some have "shortest_hop x t (k0, h0, d0) = (k, h, d)"
        by (simp add: a)
      from Cons.IH [OF this] show ?thesis
      proof
        assume h: "(k, h, d) = (k0, h0, d0)
          \<and> (\<forall>(k', d') \<in> candidates t x. d0 < d' \<or> (d0 = d' \<and> k0 \<le> k'))"
        moreover from False have "d0 < d1 \<or> (d0 = d1 \<and> k0 \<le> k1)"
          by auto
        ultimately show ?thesis
          by (simp add: a candidates_Cons Some)
      next
        assume h: "(d < d0 \<or> (d = d0 \<and> k < k0))
          \<and> (\<exists>row. (k, row) \<in> set t \<and> distances row x = Some d \<and> h = hdl row)
          \<and> (\<forall>(k', d') \<in> candidates t x. d < d' \<or> (d = d' \<and> k \<le> k'))"
        then have "\<exists>row. (k, row) \<in> set (a # t) \<and> distances row x = Some d \<and> h = hdl row"
          by auto
        moreover from h False have "d < d1 \<or> (d = d1 \<and> k \<le> k1)"
          by auto
        ultimately show ?thesis
          using h by (simp add: a candidates_Cons Some)
      qed
    qed
  qed
qed

lemma first_hop_unique:
  assumes "first_hop t x k row" "first_hop t x k' row'"
  shows "k = k'"
proof -
  from assms(1) obtain d where d: "(k, row) \<in> set t" "distances row x = Some d"
    "\<forall>(k', d') \<in> candidates t x. d < d' \<or> (d = d' \<and> k \<le> k')"
    unfolding first_hop_def by blast
  from assms(2) obtain d' where d': "(k', row') \<in> set t" "distances row' x = Some d'"
    "\<forall>(k'', d'') \<in> candidates t x. d' < d'' \<or> (d' = d'' \<and> k' \<le> k'')"
    unfolding first_hop_def by blast
  have c1: "(k, d) \<in> candidates t x" and c2: "(k', d') \<in> candidates t x"
    using d d' by (auto simp: candidates_def)
  from d(3) c2 have "d < d' \<or> (d = d' \<and> k \<le> k')" by blast
  moreover from d'(3) c1 have "d' < d \<or> (d' = d \<and> k' \<le> k)" by blast
  ultimately show ?thesis by auto
qed

lemma tbl_ok_keys: "tbl_ok t \<Longrightarrow> keys_ok t"
  by (simp add: tbl_ok_def)

lemma tbl_ok_hdl: "tbl_ok t \<Longrightarrow> (k, row) \<in> set t \<Longrightarrow> hdl row \<noteq> default"
  by (auto simp: tbl_ok_def list_all_iff)

lemma keys_ok_sorted: "keys_ok t \<Longrightarrow> sorted_wrt (<) (map fst t)"
  by (simp add: keys_ok_def)

lemma keys_ok_distinct: "keys_ok t \<Longrightarrow> distinct (map fst t)"
  using strict_sorted_iff [of "map fst t"] by (simp add: keys_ok_def)

lemma keys_ok_row:
  "keys_ok t \<Longrightarrow> (k, row) \<in> set t \<Longrightarrow>
   k \<noteq> default \<and> (\<forall>d \<in> ran (distances row). d < size_t_max)"
  by (auto simp: keys_ok_def list_all_iff)

lemma keys_ok_candidates:
  "keys_ok t \<Longrightarrow> (k, d) \<in> candidates t x \<Longrightarrow> k \<noteq> default \<and> d < size_t_max"
  using keys_ok_row by (fastforce simp: candidates_def ran_def)

lemma get_bucket_indirect:
  assumes ok: "keys_ok t" and nd: "map_of t x = None"
  shows "(get_bucket t x = Some k) = (\<exists>row. first_hop t x k row)"
proof -
  obtain k1 d1 where ld: "lowest_distance x t (default, size_t_max) = (k1, d1)"
    by (cases "lowest_distance x t (default :: 'a, size_t_max)")
  have gb: "get_bucket t x = (if k1 = default then None else Some k1)"
    by (simp add: get_bucket_def nd ld)
  from ok have srt: "sorted_wrt (<) (map fst t)" by (simp add: keys_ok_def)
  from lowest_distance_spec [OF srt ld] show ?thesis
  proof
    assume h: "(k1, d1) = (default, size_t_max)
      \<and> (\<forall>(k', d') \<in> candidates t x. size_t_max \<le> d')"
    have "candidates t x = {}"
    proof (rule ccontr)
      assume "candidates t x \<noteq> {}"
      then obtain k' d' where c: "(k', d') \<in> candidates t x" by auto
      with h have "size_t_max \<le> d'" by blast
      with keys_ok_candidates [OF ok c] show False by simp
    qed
    then have "\<not> (\<exists>row. first_hop t x k row)"
      by (auto simp: first_hop_def candidates_def)
    with h gb show ?thesis by simp
  next
    assume h: "d1 < size_t_max \<and> (k1, d1) \<in> candidates t x
      \<and> (\<forall>(k', d') \<in> candidates t x. d1 < d' \<or> (d1 = d' \<and> k1 \<le> k'))"
    then obtain row1 where r1: "(k1, row1) \<in> set t" "distances row1 x = Some d1"
      by (auto simp: candidates_def)
    with h have fh: "first_hop t x k1 row1"
      by (auto simp: first_hop_def)
    from h keys_ok_candidates [OF ok] have "k1 \<noteq> default" by blast
    with gb have g: "get_bucket t x = Some k1" by simp
    show ?thesis
    proof
      assume "get_bucket t x = Some k"
      with g have "k = k1" by simp
      with fh show "\<exists>row. first_hop t x k row" by blast
    next
      assume "\<exists>row. first_hop t x k row"
      then obtain row where "first_hop t x k row" ..
      from first_hop_unique [OF fh this] g show "get_bucket t x = Some k" by simp
    qed
  qed
qed

lemma ship_to_indirect:
  assumes ok: "tbl_ok t" and nd: "map_of t x = None" and fh: "first_hop t x k row"
  shows "ship_to t ttl0 dm x =
           [Send_publish (hdl row) \<lparr>content = Data_message dm, ttl = ttl0, receivers = [x]\<rparr>]"
proof -
  obtain k1 h1 d1 where sh: "shortest_hop x t (default, default, size_t_max) = (k1, h1, d1)"
    by (cases "shortest_hop x t (default :: 'a, default :: 'b, size_t_max)")
  from fh obtain d where d: "(k, row) \<in> set t" "distances row x = Some d"
    unfolding first_hop_def by blast
  then have c: "(k, d) \<in> candidates t x" by (auto simp: candidates_def)
  from shortest_hop_spec [OF sh] have "h1 = hdl row"
  proof
    assume h: "(k1, h1, d1) = (default, default, size_t_max)
      \<and> (\<forall>(k', d') \<in> candidates t x. size_t_max < d' \<or> (size_t_max = d' \<and> default \<le> k'))"
    with c have "size_t_max \<le> d" by auto
    with keys_ok_candidates [OF tbl_ok_keys [OF ok] c] show ?thesis by simp
  next
    assume h: "(d1 < size_t_max \<or> (d1 = size_t_max \<and> k1 < default))
      \<and> (\<exists>row. (k1, row) \<in> set t \<and> distances row x = Some d1 \<and> h1 = hdl row)
      \<and> (\<forall>(k', d') \<in> candidates t x. d1 < d' \<or> (d1 = d' \<and> k1 \<le> k'))"
    then obtain row1 where r1: "(k1, row1) \<in> set t" "distances row1 x = Some d1" "h1 = hdl row1"
      by blast
    with h have "first_hop t x k1 row1" by (auto simp: first_hop_def)
    from first_hop_unique [OF fh this] have "k = k1" .
    with r1 d keys_ok_distinct [OF tbl_ok_keys [OF ok]] have "row = row1"
      by (metis eq_key_imp_eq_value)
    with r1 show ?thesis by simp
  qed
  moreover have "hdl row \<noteq> default"
    by (rule tbl_ok_hdl [OF ok d(1)])
  ultimately show ?thesis
    by (simp add: ship_to_def nd sh)
qed

lemma ship_sends_bucket:
  assumes ok: "keys_ok t" and r: "x \<in> set (receivers msg)" and g: "get_bucket t x = Some k"
    and row: "(k, row) \<in> set t"
  shows "\<exists>l. x \<in> set l \<and> Send_publish (hdl row) (msg\<lparr>receivers := l\<rparr>) \<in> set (ship t msg)"
proof -
  from ok have srt: "sorted_wrt (<) (map fst t)" by (simp add: keys_ok_def)
  let ?l = "filter (\<lambda>r. get_bucket t r = Some k) (receivers msg)"
  have x: "x \<in> set ?l" using r g by simp
  then have "?l \<noteq> []" by (cases ?l) auto
  then have "Send_publish (hdl row) (msg\<lparr>receivers := ?l\<rparr>) \<in> set (ship t msg)"
    unfolding ship_closed_form [OF srt] using row by force
  with x show ?thesis by blast
qed

lemma lowest_distance_key:
  "fst (lowest_distance x t (b, d0)) = b \<or> fst (lowest_distance x t (b, d0)) \<in> fst ` set t"
proof (induction t arbitrary: b d0)
  case Nil
  then show ?case by simp
next
  case (Cons a t)
  obtain k row where a: "a = (k, row)" by (cases a)
  show ?case
  proof (cases "\<exists>d. distances row x = Some d \<and> d < d0")
    case True
    then obtain d where "distances row x = Some d" "d < d0" by blast
    with Cons.IH [of k d] show ?thesis by (auto simp: a)
  next
    case False
    then have "lowest_distance x (a # t) (b, d0) = lowest_distance x t (b, d0)"
      by (auto simp: a split: option.splits)
    with Cons.IH [of b d0] show ?thesis by auto
  qed
qed

lemma get_bucket_key:
  assumes "get_bucket t x = Some k"
  shows "k \<in> fst ` set t"
proof (cases "map_of t x")
  case None
  obtain k1 d1 where ld: "lowest_distance x t (default, size_t_max) = (k1, d1)"
    by (cases "lowest_distance x t (default :: 'a, size_t_max)")
  from lowest_distance_key [of x t default size_t_max] assms show ?thesis
    by (auto simp: get_bucket_def None ld split: if_splits)
next
  case (Some row)
  with assms have "k = x" by (simp add: get_bucket_def)
  with Some show ?thesis by (auto dest: map_of_SomeD intro: rev_image_eqI)
qed

lemma get_bucket_reachable:
  assumes ok: "keys_ok t"
  shows "(get_bucket t x \<noteq> None) = reachable t x"
proof (cases "map_of t x")
  case (Some row)
  then show ?thesis by (simp add: get_bucket_def reachable_def)
next
  case None
  have r: "reachable t x = (candidates t x \<noteq> {})"
    by (auto simp: reachable_def None candidates_def list_ex_iff)
  obtain k1 d1 where ld: "lowest_distance x t (default, size_t_max) = (k1, d1)"
    by (cases "lowest_distance x t (default :: 'a, size_t_max)")
  have gb: "get_bucket t x = (if k1 = default then None else Some k1)"
    by (simp add: get_bucket_def None ld)
  from ok have srt: "sorted_wrt (<) (map fst t)" by (simp add: keys_ok_def)
  from lowest_distance_spec [OF srt ld] show ?thesis
  proof
    assume h: "(k1, d1) = (default, size_t_max)
      \<and> (\<forall>(k', d') \<in> candidates t x. size_t_max \<le> d')"
    have "candidates t x = {}"
    proof (rule ccontr)
      assume "candidates t x \<noteq> {}"
      then obtain k' d' where c: "(k', d') \<in> candidates t x" by auto
      with h have "size_t_max \<le> d'" by blast
      with keys_ok_candidates [OF ok c] show False by simp
    qed
    with h gb r show ?thesis by simp
  next
    assume h: "d1 < size_t_max \<and> (k1, d1) \<in> candidates t x
      \<and> (\<forall>(k', d') \<in> candidates t x. d1 < d' \<or> (d1 = d' \<and> k1 \<le> k'))"
    with keys_ok_candidates [OF ok] have "k1 \<noteq> default" by blast
    with h gb r show ?thesis by auto
  qed
qed

lemma mset_filter_disjoint:
  "\<forall>x \<in> set rs. \<not> (P x \<and> Q x) \<Longrightarrow>
   mset (filter P rs) + mset (filter Q rs) = mset (filter (\<lambda>x. P x \<or> Q x) rs)"
  by (induction rs) auto

lemma mset_buckets:
  "distinct ks \<Longrightarrow>
   mset (concat (map (\<lambda>k. filter (\<lambda>r. g r = Some k) rs) ks))
   = mset (filter (\<lambda>r. g r \<in> Some ` set ks) rs)"
proof (induction ks)
  case Nil
  then show ?case by simp
next
  case (Cons k ks)
  from Cons.prems have d: "distinct ks" and nk: "k \<notin> set ks" by auto
  have "mset (concat (map (\<lambda>k. filter (\<lambda>r. g r = Some k) rs) (k # ks)))
        = mset (filter (\<lambda>r. g r = Some k) rs) + mset (filter (\<lambda>r. g r \<in> Some ` set ks) rs)"
    using Cons.IH [OF d] by simp
  also have "\<dots> = mset (filter (\<lambda>r. g r = Some k \<or> g r \<in> Some ` set ks) rs)"
  proof (rule mset_filter_disjoint)
    show "\<forall>x\<in>set rs. \<not> (g x = Some k \<and> g x \<in> Some ` set ks)"
      using nk by auto
  qed
  also have "\<dots> = mset (filter (\<lambda>r. g r \<in> Some ` set (k # ks)) rs)"
    by (intro arg_cong [where f = mset] filter_cong) auto
  finally show ?case .
qed

lemma emitted_receivers:
  "concat (map copy_receivers
     (concat (map (\<lambda>(k, row). if filter (P k) rs \<noteq> []
                               then [Send_publish (hdl row) (msg\<lparr>receivers := filter (P k) rs\<rparr>)]
                               else []) t)))
   = concat (map (\<lambda>k. filter (P k) rs) (map fst t))"
  by (induction t) auto

lemma ship_receivers:
  assumes "sorted_wrt (<) (map fst t)"
  shows "concat (map copy_receivers (ship t msg))
         = concat (map (\<lambda>k. filter (\<lambda>r. get_bucket t r = Some k) (receivers msg)) (map fst t))"
  unfolding ship_closed_form [OF assms]
  by (rule emitted_receivers [where P = "\<lambda>k r. get_bucket t r = Some k"])

lemma ship_mset:
  assumes ok: "keys_ok t"
  shows "mset (concat (map copy_receivers (ship t msg))) = mset (filter (reachable t) (receivers msg))"
proof -
  from ok have srt: "sorted_wrt (<) (map fst t)" by (simp add: keys_ok_def)
  have "(\<lambda>r. get_bucket t r \<in> Some ` set (map fst t)) = reachable t"
  proof
    fix r
    show "(get_bucket t r \<in> Some ` set (map fst t)) = reachable t r"
      using get_bucket_reachable [OF ok, of r] get_bucket_key [of t r]
      by (cases "get_bucket t r") auto
  qed
  then show ?thesis
    unfolding ship_receivers [OF srt] mset_buckets [OF keys_ok_distinct [OF ok]] by simp
qed

lemma count_key:
  "distinct (map fst t) \<Longrightarrow> k \<in> fst ` set t \<Longrightarrow> length (filter (\<lambda>(k', row). k' = k) t) = 1"
  by (induction t) (auto simp: filter_empty_conv image_iff)

lemma emitted_copies_with:
  "length (filter (\<lambda>e. x \<in> set (copy_receivers e))
     (concat (map (\<lambda>(k, row). if filter (P k) rs \<noteq> []
                               then [Send_publish (hdl row) (msg\<lparr>receivers := filter (P k) rs\<rparr>)]
                               else []) t)))
   = length (filter (\<lambda>(k, row). x \<in> set rs \<and> P k x) t)"
  by (induction t) (auto simp: filter_empty_conv)

lemma ship_copies_with:
  assumes "sorted_wrt (<) (map fst t)"
  shows "length (filter (\<lambda>e. x \<in> set (copy_receivers e)) (ship t msg))
         = length (filter (\<lambda>(k, row). x \<in> set (receivers msg) \<and> get_bucket t x = Some k) t)"
  unfolding ship_closed_form [OF assms]
  by (rule emitted_copies_with [where P = "\<lambda>k r. get_bucket t r = Some k"])

lemma ship_exactly_one:
  assumes ok: "keys_ok t" and x: "x \<in> set (receivers msg)"
  shows "length (filter (\<lambda>e. x \<in> set (copy_receivers e)) (ship t msg))
         = (if reachable t x then 1 else 0)"
proof -
  from ok have srt: "sorted_wrt (<) (map fst t)" by (simp add: keys_ok_def)
  show ?thesis
  proof (cases "get_bucket t x")
    case None
    with get_bucket_reachable [OF ok, of x] show ?thesis
      unfolding ship_copies_with [OF srt] by simp
  next
    case (Some k)
    have "length (filter (\<lambda>(k', row). k' = k) t) = 1"
      using count_key [OF keys_ok_distinct [OF ok] get_bucket_key [OF Some]] .
    moreover have "filter (\<lambda>(k', row). x \<in> set (receivers msg) \<and> get_bucket t x = Some k') t
                 = filter (\<lambda>(k', row). k' = k) t"
      by (intro filter_cong) (auto simp: x Some)
    moreover have "reachable t x"
      using get_bucket_reachable [OF ok, of x] Some by simp
    ultimately show ?thesis
      unfolding ship_copies_with [OF srt] by simp
  qed
qed

lemma two_neighbors_keys_ok: "keys_ok two_neighbors"
  by (simp add: keys_ok_def two_neighbors_def first_row_def default_nat_def size_t_max_def)

lemma two_neighbors_ok: "tbl_ok two_neighbors"
  by (simp add: tbl_ok_def two_neighbors_keys_ok)
     (simp add: two_neighbors_def first_row_def default_nat_def)

lemma two_neighbors_candidates: "candidates two_neighbors 5 = {(2, 2), (3, 2)}"
  by (auto simp: candidates_def two_neighbors_def first_row_def)

lemma two_neighbors_first_hop:
  "first_hop two_neighbors 5 2 first_row"
proof -
  have "(2, first_row) \<in> set two_neighbors"
    by (simp add: two_neighbors_def)
  moreover have "distances first_row 5 = Some 2"
    by (simp add: first_row_def)
  ultimately show ?thesis
    by (simp add: first_hop_def two_neighbors_candidates)
qed

text \<open>
  C2. In both \<open>ship(msg)\<close> (the lambda \<open>get_bucket\<close>) and the direct-send overload
  \<open>ship(data_msg, receiver)\<close>, a receiver that is not a direct neighbor is assigned to
  the neighbor that records the minimum distance to it and, among the neighbors that tie
  on that minimum, has the smallest id: \<open>get_bucket\<close> returns \<open>k\<close> exactly when \<open>k\<close> is that
  neighbor, the copy of \<open>ship(msg)\<close> holding the receiver goes to the handle of \<open>k\<close>, and
  the direct send goes to the handle of \<open>k\<close>. The routing table is an ordered map with
  valid ids and handles (\<open>tbl_ok\<close>).
\<close>

theorem first_hop_tie_break:
  assumes "tbl_ok t" and "map_of t x = None"
  shows "(get_bucket t x = Some k) = (\<exists>row. first_hop t x k row)
    \<and> (\<forall>row. first_hop t x k row \<longrightarrow>
          ship_to t ttl0 dm x
            = [Send_publish (hdl row) \<lparr>content = Data_message dm, ttl = ttl0, receivers = [x]\<rparr>]
          \<and> (x \<in> set (receivers msg) \<longrightarrow>
               (\<exists>l. x \<in> set l
                  \<and> Send_publish (hdl row) (msg\<lparr>receivers := l\<rparr>) \<in> set (ship t msg))))"
proof (intro conjI allI impI)
  show "(get_bucket t x = Some k) = (\<exists>row. first_hop t x k row)"
    by (rule get_bucket_indirect [OF tbl_ok_keys [OF assms(1)] assms(2)])
next
  fix row assume fh: "first_hop t x k row"
  show "ship_to t ttl0 dm x
          = [Send_publish (hdl row) \<lparr>content = Data_message dm, ttl = ttl0, receivers = [x]\<rparr>]"
    by (rule ship_to_indirect [OF assms fh])
next
  fix row assume fh: "first_hop t x k row" and x: "x \<in> set (receivers msg)"
  from fh have g: "get_bucket t x = Some k"
    using get_bucket_indirect [OF tbl_ok_keys [OF assms(1)] assms(2), of k] by blast
  from fh have "(k, row) \<in> set t" by (simp add: first_hop_def)
  from ship_sends_bucket [OF tbl_ok_keys [OF assms(1)] x g this]
  show "\<exists>l. x \<in> set l \<and> Send_publish (hdl row) (msg\<lparr>receivers := l\<rparr>) \<in> set (ship t msg)" .
qed

theorem first_hop_tie_break_witness:
  "tbl_ok two_neighbors \<and> map_of two_neighbors 5 = None
   \<and> first_hop two_neighbors 5 2 first_row
   \<and> 5 \<in> set (receivers sample_message)
   \<and> get_bucket two_neighbors 5 = Some 2
   \<and> ship_to two_neighbors 7 (0::nat) 5
       = ([Send_publish (hdl first_row) \<lparr>content = Data_message 0, ttl = 7, receivers = [5]\<rparr>]
          :: (nat, nat, nat, nat) event list)
   \<and> (\<exists>l. 5 \<in> set l
          \<and> Send_publish (hdl first_row) (sample_message\<lparr>receivers := l\<rparr>)
              \<in> set (ship two_neighbors sample_message))"
proof -
  have nd: "map_of two_neighbors 5 = None"
    by (simp add: two_neighbors_def)
  have r: "5 \<in> set (receivers sample_message)"
    by (simp add: sample_message_def)
  note th = first_hop_tie_break [OF two_neighbors_ok nd, of 2 7 0 sample_message]
  from th have th1: "(get_bucket two_neighbors 5 = Some 2)
                = (\<exists>row. first_hop two_neighbors 5 2 row)"
    by (rule conjunct1)
  have "\<exists>row. first_hop two_neighbors 5 2 row"
    using two_neighbors_first_hop by (rule exI)
  with th1 have a: "get_bucket two_neighbors 5 = Some 2"
    by (rule iffD2)
  note th2 = th [THEN conjunct2, rule_format, OF two_neighbors_first_hop]
  note b = th2 [THEN conjunct1]
  note c = th2 [THEN conjunct2, rule_format, OF r]
  from two_neighbors_ok nd two_neighbors_first_hop r a b c show ?thesis
    by (intro conjI)
qed

text \<open>
  C5. After \<open>ship(msg)\<close>, the receivers of the emitted copies, taken together as a
  multiset, are the receivers of \<open>msg\<close> that are reachable (a direct neighbor, or recorded
  in the distances of some neighbor); a reachable receiver of \<open>msg\<close> is in exactly one
  emitted copy and an unreachable one in none. The routing table is an ordered map with
  valid ids (\<open>keys_ok\<close>).
\<close>

theorem ship_partitions_reachable:
  assumes "keys_ok t"
  shows "mset (concat (map copy_receivers (ship t msg))) = mset (filter (reachable t) (receivers msg))
    \<and> (\<forall>x \<in> set (receivers msg).
          length (filter (\<lambda>e. x \<in> set (copy_receivers e)) (ship t msg))
            = (if reachable t x then 1 else 0))"
  using ship_mset [OF assms] ship_exactly_one [OF assms] by blast

theorem ship_partitions_reachable_witness:
  "keys_ok two_neighbors
   \<and> mset (concat (map copy_receivers (ship two_neighbors sample_message))) = {#2, 5, 6#}
   \<and> length (filter (\<lambda>e. 6 \<in> set (copy_receivers e)) (ship two_neighbors sample_message)) = 1
   \<and> length (filter (\<lambda>e. 9 \<in> set (copy_receivers e)) (ship two_neighbors sample_message)) = 0"
proof -
  have r: "filter (reachable two_neighbors) (receivers sample_message) = [2, 5, 6]"
    by (simp add: reachable_def two_neighbors_def first_row_def sample_message_def)
  have r4: "reachable two_neighbors 6" and r9: "\<not> reachable two_neighbors 9"
    by (simp_all add: reachable_def two_neighbors_def first_row_def)
  have m: "6 \<in> set (receivers sample_message)" "9 \<in> set (receivers sample_message)"
    by (simp_all add: sample_message_def)
  note th = ship_partitions_reachable [OF two_neighbors_keys_ok, of sample_message]
  from th have a: "mset (concat (map copy_receivers (ship two_neighbors sample_message)))
                   = mset [2, 5, 6]"
    unfolding r by (rule conjunct1)
  from th m(1) have "length (filter (\<lambda>e. 6 \<in> set (copy_receivers e))
                       (ship two_neighbors sample_message))
                     = (if reachable two_neighbors 6 then 1 else 0)"
    by blast
  with r4 have b: "length (filter (\<lambda>e. 6 \<in> set (copy_receivers e))
                       (ship two_neighbors sample_message)) = 1"
    by simp
  from th m(2) have "length (filter (\<lambda>e. 9 \<in> set (copy_receivers e))
                       (ship two_neighbors sample_message))
                     = (if reachable two_neighbors 9 then 1 else 0)"
    by blast
  with r9 have c: "length (filter (\<lambda>e. 9 \<in> set (copy_receivers e))
                       (ship two_neighbors sample_message)) = 0"
    by simp
  from a have a': "mset (concat (map copy_receivers (ship two_neighbors sample_message)))
                   = {#2, 5, 6#}"
    by (simp add: add_mset_commute)
  from two_neighbors_keys_ok a' b c show ?thesis
    by (intro conjI)
qed

section \<open>Properties of \<open>handle_publication\<close>\<close>

lemma ship_two_neighbors_direct:
  "ship two_neighbors (m\<lparr>receivers := [2]\<rparr>)
   = [Send_publish 12 (m\<lparr>receivers := [2]\<rparr>)]"
  by (simp add: ship_def two_neighbors_def first_row_def get_bucket_def)

lemma minus_one_word16: "(0 :: 16 word) - 1 = 65535"
  by simp

lemma update_row_set:
  "(k', v') \<in> set (update_row k f b) \<Longrightarrow> (k', v') \<in> set b \<or> (\<exists>v. (k', v) \<in> set b \<and> v' = f v)"
proof (induction b)
  case Nil
  then show ?case by simp
next
  case (Cons a b)
  obtain k0 v0 where a: "a = (k0, v0)" by (cases a)
  show ?case
  proof (cases "k0 = k")
    case True
    with Cons.prems have "(k', v') = (k, f v0) \<or> (k', v') \<in> set b"
      by (simp add: a)
    then show ?thesis using True by (auto simp: a)
  next
    case False
    with Cons.prems have "(k', v') = (k0, v0) \<or> (k', v') \<in> set (update_row k f b)"
      by (simp add: a)
    then show ?thesis using Cons.IH by (auto simp: a)
  qed
qed

lemma fill_buckets_subset:
  assumes "\<forall>(k, h, l) \<in> set b. set l \<subseteq> S" and "set rs \<subseteq> S"
  shows "\<forall>(k, h, l) \<in> set (fold (\<lambda>receiver b.
           case g receiver of
             None \<Rightarrow> b
           | Some k \<Rightarrow> update_row k (\<lambda>(h, bucket). (h, bucket @ [receiver])) b) rs b).
           set l \<subseteq> S"
  using assms
proof (induction rs arbitrary: b)
  case Nil
  then show ?case by simp
next
  case (Cons r rs)
  show ?case
  proof (cases "g r")
    case None
    with Cons show ?thesis by simp
  next
    case (Some k)
    let ?b1 = "update_row k (\<lambda>(h, bucket). (h, bucket @ [r])) b"
    have "\<forall>(k, h, l) \<in> set ?b1. set l \<subseteq> S"
    proof (clarify)
      fix k' h' l' x
      assume m: "(k', h', l') \<in> set ?b1" and x: "x \<in> set l'"
      from update_row_set [OF m] show "x \<in> S"
      proof
        assume "(k', h', l') \<in> set b"
        with Cons.prems(1) x show ?thesis by auto
      next
        assume "\<exists>v. (k', v) \<in> set b \<and> (h', l') = (\<lambda>(h, bucket). (h, bucket @ [r])) v"
        then obtain h l where "(k', h, l) \<in> set b" "l' = l @ [r]" by auto
        with Cons.prems x show ?thesis by auto
      qed
    qed
    from Cons.IH [OF this] Cons.prems(2) Some show ?thesis by simp
  qed
qed

lemma map_emplace_empty:
  "\<forall>(k, h, l) \<in> set b. l = [] \<Longrightarrow> \<forall>(k, h, l) \<in> set (map_emplace k' (h', []) b). l = []"
  by (induction b) (auto split: if_splits)

lemma initial_buckets_empty:
  "\<forall>(k, h, l) \<in> set b. l = [] \<Longrightarrow>
   \<forall>(k, h, l) \<in> set (fold (\<lambda>(k, row). map_emplace k (hdl row, [])) t b). l = []"
proof (induction t arbitrary: b)
  case Nil
  then show ?case by simp
next
  case (Cons a t)
  obtain k row where a: "a = (k, row)" by (cases a)
  from Cons.IH [OF map_emplace_empty [OF Cons.prems]] show ?case by (simp add: a)
qed

lemma ship_events:
  assumes "e \<in> set (ship t msg)"
  shows "\<exists>h l. e = Send_publish h (msg\<lparr>receivers := l\<rparr>) \<and> l \<noteq> [] \<and> set l \<subseteq> set (receivers msg)"
proof -
  let ?b0 = "fold (\<lambda>(k, row). map_emplace k (hdl row, [])) t []"
  let ?b1 = "fold (\<lambda>receiver b.
                        case get_bucket t receiver of
                          None \<Rightarrow> b
                        | Some k \<Rightarrow> update_row k (\<lambda>(h, bucket). (h, bucket @ [receiver])) b)
                      (receivers msg) ?b0"
  have "\<forall>(k, h, l) \<in> set ?b0. l = []"
    by (rule initial_buckets_empty) simp
  then have "\<forall>(k, h, l) \<in> set ?b0. set l \<subseteq> set (receivers msg)"
    by auto
  then have sub: "\<forall>(k, h, l) \<in> set ?b1. set l \<subseteq> set (receivers msg)"
    by (rule fill_buckets_subset) simp
  from assms obtain k h l where "(k, h, l) \<in> set ?b1" "l \<noteq> []"
    "e = Send_publish h (msg\<lparr>receivers := l\<rparr>)"
    unfolding ship_def Let_def by (auto split: if_splits)
  with sub show ?thesis by blast
qed

text \<open>
  C1, as amended. \<open>handle_publication\<close> decrements the TTL first and has no check of the
  TTL it finds on entry: the content is delivered locally exactly when the own id is among
  the receivers, whatever the TTL. When the TTL on entry is 1 (0 after the decrement) no
  copy is sent on; when the TTL on entry is not 0, every copy sent on carries the
  decremented TTL and no longer lists the own id.
\<close>

theorem handle_publication_local_and_expiry:
  "(Ship_locally c \<in> set (handle_publication self t msg))
     = (c = content msg \<and> self \<in> set (receivers msg))
   \<and> (ttl msg = 1 \<longrightarrow> (\<forall>h m. Send_publish h m \<notin> set (handle_publication self t msg)))
   \<and> (ttl msg \<noteq> 0 \<longrightarrow>
        (\<forall>h m. Send_publish h m \<in> set (handle_publication self t msg) \<longrightarrow>
           ttl m = ttl msg - 1 \<and> content m = content msg \<and> self \<notin> set (receivers m)))"
proof (intro conjI impI allI)
  show "(Ship_locally c \<in> set (handle_publication self t msg))
     = (c = content msg \<and> self \<in> set (receivers msg))"
    by (auto simp: handle_publication_def Let_def dest: ship_events)
next
  fix h m assume "ttl msg = 1"
  then show "Send_publish h m \<notin> set (handle_publication self t msg)"
    by (simp add: handle_publication_def Let_def)
next
  fix h m
  assume s: "Send_publish h m \<in> set (handle_publication self t msg)"
  let ?msg1 = "msg\<lparr>ttl := ttl msg - 1, receivers := filter (\<lambda>r. r \<noteq> self) (receivers msg)\<rparr>"
  from s have "Send_publish h m \<in> set (ship t ?msg1)"
    by (auto simp: handle_publication_def Let_def split: if_splits)
  from ship_events [OF this] obtain l where "m = ?msg1\<lparr>receivers := l\<rparr>"
    "set l \<subseteq> set (receivers ?msg1)" by auto
  then show "ttl m = ttl msg - 1" "content m = content msg" "self \<notin> set (receivers m)"
    by auto
qed

theorem handle_publication_local_and_expiry_witness:
  "ttl last_hop_message = 1
   \<and> Ship_locally (Data_message 0) \<in> set (handle_publication 7 two_neighbors last_hop_message)
   \<and> Send_publish 12 (last_hop_message\<lparr>ttl := 0, receivers := [2]\<rparr>)
         \<notin> set (handle_publication 7 two_neighbors last_hop_message)
   \<and> ttl forwarded_message \<noteq> 0
   \<and> Send_publish 12 (forwarded_message\<lparr>ttl := 4, receivers := [2]\<rparr>)
         \<in> set (handle_publication 7 two_neighbors forwarded_message)
   \<and> ttl (forwarded_message\<lparr>ttl := 4, receivers := [2]\<rparr>) = ttl forwarded_message - 1
   \<and> 7 \<notin> set (receivers (forwarded_message\<lparr>ttl := 4, receivers := [2]\<rparr>))"
proof -
  have t1: "ttl last_hop_message = 1"
    by (simp add: last_hop_message_def)
  have t5: "ttl forwarded_message \<noteq> 0"
    by (simp add: forwarded_message_def)
  have loc: "Data_message 0 = content last_hop_message \<and> 7 \<in> set (receivers last_hop_message)"
    by (simp add: last_hop_message_def)
  note th1 = handle_publication_local_and_expiry
    [of "Data_message 0" 7 two_neighbors last_hop_message]
  note th5 = handle_publication_local_and_expiry
    [of "Data_message 0" 7 two_neighbors forwarded_message]
  from th1 loc
  have a: "Ship_locally (Data_message 0) \<in> set (handle_publication 7 two_neighbors last_hop_message)"
    by blast
  from th1 t1
  have b: "Send_publish 12 (last_hop_message\<lparr>ttl := 0, receivers := [2]\<rparr>)
         \<notin> set (handle_publication 7 two_neighbors last_hop_message)"
    by blast
  have "handle_publication 7 two_neighbors forwarded_message
        = [Ship_locally (Data_message 0)]
          @ ship two_neighbors (forwarded_message\<lparr>ttl := 4, receivers := [2]\<rparr>)"
    by (simp add: handle_publication_def forwarded_message_def)
  then have c: "Send_publish 12 (forwarded_message\<lparr>ttl := 4, receivers := [2]\<rparr>)
         \<in> set (handle_publication 7 two_neighbors forwarded_message)"
    by (simp add: ship_two_neighbors_direct)
  from th5 t5 c
  have d: "ttl (forwarded_message\<lparr>ttl := 4, receivers := [2]\<rparr>) = ttl forwarded_message - 1
           \<and> 7 \<notin> set (receivers (forwarded_message\<lparr>ttl := 4, receivers := [2]\<rparr>))"
    by blast
  from t1 a b t5 c d show ?thesis
    by blast
qed

text \<open>
  C1, as stated, fails: a message that arrives with TTL 0 is not dropped. Its content is
  delivered locally and a copy is sent on.
\<close>

theorem handle_publication_ttl0_counterexample:
  "ttl expired_message = 0
   \<and> handle_publication 7 two_neighbors expired_message
       = [Ship_locally (Data_message 0),
          Send_publish 12 \<lparr>content = Data_message 0, ttl = 65535, receivers = [2]\<rparr>]"
proof -
  have "handle_publication 7 two_neighbors expired_message
        = [Ship_locally (Data_message 0)]
          @ ship two_neighbors (expired_message\<lparr>ttl := 0 - 1, receivers := [2]\<rparr>)"
    by (simp add: handle_publication_def expired_message_def)
  then show ?thesis
    unfolding minus_one_word16
    by (simp add: ship_two_neighbors_direct) (simp add: expired_message_def)
qed

section \<open>Properties of the distribution policy\<close>

lemma emit_simps [simp]:
  "blocked_peers (emit es s) = blocked_peers s"
  "blocked_msgs (emit es s) = blocked_msgs s"
  "peer_to_ipath (emit es s) = peer_to_ipath s"
  "forward (emit es s) = forward s"
  "num_workers (emit es s) = num_workers s"
  "num_stores (emit es s) = num_stores s"
  "trace (emit es s) = trace s @ es"
  by (simp_all add: emit_def)

lemma emit_emit: "emit es (emit es' s) = emit (es' @ es) s"
  by (simp add: emit_def)

lemma emit_Nil: "emit [] s = s"
  by (simp add: emit_def)

lemma handle_batch_blocked:
  "h \<in> blocked_peers s \<Longrightarrow>
   handle_batch cs th slot h (Peer_batch b) s
   = s\<lparr>blocked_msgs := (blocked_msgs s)(h \<mapsto> buffered s h @ [Peer_batch b])\<rparr>"
  by (simp add: handle_batch_def buffered_def)

lemma deliver_unblocked:
  "h \<notin> blocked_peers s \<Longrightarrow>
   deliver cs th slot h (Peer_batch msgs) s = emit (batch_events cs s h msgs) s"
  by (simp add: deliver_def handle_batch_def before_handle_batch_def after_handle_batch_def
                emit_emit batch_events_def)

lemma batch_events_emit: "batch_events cs (emit es s) h msgs = batch_events cs s h msgs"
  by (simp add: batch_events_def)

lemma replay_unblocked:
  "h \<notin> blocked_peers s \<Longrightarrow>
   fold (deliver cs th slot h) (map Peer_batch bs) s
   = emit (concat (map (batch_events cs s h) bs)) s"
proof (induction bs arbitrary: s)
  case Nil
  then show ?case by (simp add: emit_Nil)
next
  case (Cons b bs)
  let ?s1 = "emit (batch_events cs s h b) s"
  have "h \<notin> blocked_peers ?s1" using Cons.prems by simp
  from Cons.IH [OF this] show ?case
    by (simp add: deliver_unblocked [OF Cons.prems] emit_emit batch_events_emit)
qed

lemma buffered_after_append:
  "buffered (s\<lparr>blocked_msgs := (blocked_msgs s)(h \<mapsto> xs)\<rparr>) h = xs"
  by (simp add: buffered_def)

lemma buffer_blocked_Cons:
  "h \<in> blocked_peers s \<Longrightarrow>
   fold (handle_batch cs th slot h) (map Peer_batch (b # bs)) s
   = s\<lparr>blocked_msgs := (blocked_msgs s)(h \<mapsto> buffered s h @ map Peer_batch (b # bs))\<rparr>"
proof (induction bs arbitrary: s b)
  case Nil
  then show ?case by (simp add: handle_batch_blocked fun_upd_def)
next
  case (Cons b' bs)
  let ?s1 = "s\<lparr>blocked_msgs := (blocked_msgs s)(h \<mapsto> buffered s h @ [Peer_batch b])\<rparr>"
  have h1: "h \<in> blocked_peers ?s1" using Cons.prems by simp
  have "fold (handle_batch cs th slot h) (map Peer_batch (b # b' # bs)) s
        = fold (handle_batch cs th slot h) (map Peer_batch (b' # bs)) ?s1"
    by (simp add: handle_batch_blocked [OF Cons.prems])
  also have "\<dots> = ?s1\<lparr>blocked_msgs :=
                 (blocked_msgs ?s1)(h \<mapsto> buffered ?s1 h @ map Peer_batch (b' # bs))\<rparr>"
    by (rule Cons.IH [OF h1])
  also have "\<dots> = s\<lparr>blocked_msgs :=
                 (blocked_msgs s)(h \<mapsto> buffered s h @ map Peer_batch (b # b' # bs))\<rparr>"
    unfolding buffered_after_append by simp
  finally show ?case .
qed

lemma buffer_blocked:
  "h \<in> blocked_peers s \<Longrightarrow> bs \<noteq> [] \<Longrightarrow>
   fold (handle_batch cs th slot h) (map Peer_batch bs) s
   = s\<lparr>blocked_msgs := (blocked_msgs s)(h \<mapsto> buffered s h @ map Peer_batch bs)\<rparr>"
  using buffer_blocked_Cons [of h s cs th slot "hd bs" "tl bs"] by simp

lemma unblock_peer_replay:
  assumes "blocked_msgs s h = Some (map Peer_batch bs)" and "peer_to_ipath s h = Some slot"
  shows "unblock_peer cs th h s
         = (fold (deliver cs th slot h) (map Peer_batch bs)
              (s\<lparr>blocked_peers := blocked_peers s - {h}\<rparr>))
           \<lparr>blocked_msgs := (blocked_msgs s)(h := None)\<rparr>"
    and "unblock_peer cs th h s
         = s\<lparr>blocked_peers := blocked_peers s - {h},
              blocked_msgs := (blocked_msgs s)(h := None),
              trace := trace s @ concat (map (batch_events cs s h) bs)\<rparr>"
proof -
  let ?s1 = "s\<lparr>blocked_peers := blocked_peers s - {h}\<rparr>"
  have nb: "h \<notin> blocked_peers ?s1" by simp
  have be: "batch_events cs ?s1 h = batch_events cs s h"
    by (rule ext) (simp add: batch_events_def)
  have u: "unblock_peer cs th h s
           = (fold (deliver cs th slot h) (map Peer_batch bs) ?s1)
             \<lparr>blocked_msgs := (blocked_msgs
                  (fold (deliver cs th slot h) (map Peer_batch bs) ?s1))(h := None)\<rparr>"
    using assms by (simp add: unblock_peer_def Let_def)
  show "unblock_peer cs th h s
         = (fold (deliver cs th slot h) (map Peer_batch bs) ?s1)
           \<lparr>blocked_msgs := (blocked_msgs s)(h := None)\<rparr>"
    unfolding u replay_unblocked [OF nb] by simp
  show "unblock_peer cs th h s
         = s\<lparr>blocked_peers := blocked_peers s - {h},
              blocked_msgs := (blocked_msgs s)(h := None),
              trace := trace s @ concat (map (batch_events cs s h) bs)\<rparr>"
    unfolding u replay_unblocked [OF nb] be by (simp add: emit_def)
qed

lemma unblock_peer_discard:
  assumes "blocked_msgs s h = Some bs" and "peer_to_ipath s h = None"
  shows "unblock_peer cs th h s
         = s\<lparr>blocked_peers := blocked_peers s - {h}, blocked_msgs := (blocked_msgs s)(h := None)\<rparr>"
  using assms by (simp add: unblock_peer_def Let_def)

lemma unblock_peer_nothing_buffered:
  assumes "blocked_msgs s h = None"
  shows "unblock_peer cs th h s = s\<lparr>blocked_peers := blocked_peers s - {h}\<rparr>"
  using assms by (simp add: unblock_peer_def Let_def)

lemma block_replay:
  assumes nb: "h \<notin> blocked_peers s" and none: "blocked_msgs s h = None"
    and slot: "peer_to_ipath s h = Some slot"
  shows "unblock_peer cs th h
           (fold (handle_batch cs th slot h) (map Peer_batch bs) (block_peer h s))
         = fold (deliver cs th slot h) (map Peer_batch bs) s"
proof (cases "bs = []")
  case True
  have "blocked_peers s - {h} = blocked_peers s" using nb by auto
  then show ?thesis
    using none by (simp add: True unblock_peer_nothing_buffered block_peer_def)
next
  case False
  let ?b = "block_peer h s"
  have hb: "h \<in> blocked_peers ?b" by (simp add: block_peer_def)
  let ?s1 = "?b\<lparr>blocked_msgs := (blocked_msgs ?b)(h \<mapsto> buffered ?b h @ map Peer_batch bs)\<rparr>"
  have f: "fold (handle_batch cs th slot h) (map Peer_batch bs) ?b = ?s1"
    by (rule buffer_blocked [OF hb False])
  have bm: "blocked_msgs ?s1 h = Some (map Peer_batch bs)"
    using none by (simp add: buffered_def block_peer_def)
  have sl: "peer_to_ipath ?s1 h = Some slot"
    using slot by (simp add: block_peer_def)
  have e1: "blocked_peers ?s1 - {h} = blocked_peers s"
    using nb by (auto simp: block_peer_def)
  have e2: "(blocked_msgs ?s1)(h := None) = blocked_msgs s"
    using none by (auto simp: block_peer_def)
  have e3: "batch_events cs ?s1 h = batch_events cs s h"
    by (rule ext) (simp add: batch_events_def block_peer_def)
  show ?thesis
    unfolding f unblock_peer_replay(2) [OF bm sl] replay_unblocked [OF nb] e1 e2 e3
    by (simp add: emit_def block_peer_def)
qed

text \<open>
  C7. A peer batch from a handle in \<open>blocked_peers\<close> is appended whole to
  \<open>blocked_msgs\<close> for that handle and nothing else changes. \<open>unblock_peer\<close> removes the
  handle from \<open>blocked_peers\<close>; with nothing buffered that is all it does. With buffered
  batches and an inbound slot for the handle it runs \<open>before_handle_batch\<close>,
  \<open>handle_batch\<close>, \<open>after_handle_batch\<close> on each buffered batch in arrival order, each
  adding to the trace what a batch from an unblocked peer adds, and erases the buffer;
  without the slot it only erases the buffer. Blocking a peer, receiving batches and
  unblocking ends in the state that delivering the batches unblocked ends in.
\<close>

theorem blocked_peer_buffer_and_replay:
  "(h \<in> blocked_peers s \<longrightarrow>
      handle_batch cs th slot h (Peer_batch b) s
      = s\<lparr>blocked_msgs := (blocked_msgs s)(h \<mapsto> buffered s h @ [Peer_batch b])\<rparr>)
   \<and> (blocked_msgs s h = None \<longrightarrow>
        unblock_peer cs th h s = s\<lparr>blocked_peers := blocked_peers s - {h}\<rparr>)
   \<and> (blocked_msgs s h = Some (map Peer_batch bs) \<and> peer_to_ipath s h = Some slot \<longrightarrow>
        unblock_peer cs th h s
        = (fold (deliver cs th slot h) (map Peer_batch bs)
             (s\<lparr>blocked_peers := blocked_peers s - {h}\<rparr>))
          \<lparr>blocked_msgs := (blocked_msgs s)(h := None)\<rparr>
        \<and> unblock_peer cs th h s
          = s\<lparr>blocked_peers := blocked_peers s - {h},
               blocked_msgs := (blocked_msgs s)(h := None),
               trace := trace s @ concat (map (batch_events cs s h) bs)\<rparr>)
   \<and> (blocked_msgs s h = Some bs' \<and> peer_to_ipath s h = None \<longrightarrow>
        unblock_peer cs th h s
        = s\<lparr>blocked_peers := blocked_peers s - {h},
             blocked_msgs := (blocked_msgs s)(h := None)\<rparr>)
   \<and> (h \<notin> blocked_peers s \<and> blocked_msgs s h = None \<and> peer_to_ipath s h = Some slot \<longrightarrow>
        unblock_peer cs th h
          (fold (handle_batch cs th slot h) (map Peer_batch bs) (block_peer h s))
        = fold (deliver cs th slot h) (map Peer_batch bs) s)"
  using handle_batch_blocked [of h s cs th slot b]
    unblock_peer_nothing_buffered [of s h cs th]
    unblock_peer_replay [of s h bs slot cs th]
    unblock_peer_discard [of s h bs' cs th]
    block_replay [of h s slot cs th bs]
  by blast

lemma ends_with_t: "\<not> ends_with ''t'' ''data/clone''"
  by (simp add: ends_with_def)

lemma deliver_fresh:
  "deliver ''data/clone'' (\<lambda>x s. s) 4 9 (Peer_batch [fresh_peer_message]) quiet_policy
   = quiet_policy\<lparr>trace :=
       [Active_sender None, Fan_out_flush, Active_sender (Some 9),
        Workers_push (''t'', 0), Peers_push (fresh_peer_message\<lparr>ttl := 2\<rparr>),
        Fan_out_flush, Active_sender None]\<rparr>"
  by (simp add: deliver_def before_handle_batch_def after_handle_batch_def handle_batch_def
        emit_def forward_message_def ends_with_t quiet_policy_def fresh_peer_message_def)

theorem blocked_peer_buffer_and_replay_witness:
  "9 \<in> blocked_peers (block_peer 9 quiet_policy)
   \<and> blocked_msgs (handle_batch ''data/clone'' (\<lambda>x s. s) 4 9 (Peer_batch [fresh_peer_message])
                     (block_peer 9 quiet_policy)) 9
       = Some [Peer_batch [fresh_peer_message]]
   \<and> 9 \<notin> blocked_peers quiet_policy \<and> blocked_msgs quiet_policy 9 = None
   \<and> peer_to_ipath quiet_policy 9 = Some 4
   \<and> unblock_peer ''data/clone'' (\<lambda>x s. s) 9
        (fold (handle_batch ''data/clone'' (\<lambda>x s. s) 4 9) (map Peer_batch [[fresh_peer_message]])
           (block_peer 9 quiet_policy))
       = quiet_policy\<lparr>trace :=
           [Active_sender None, Fan_out_flush, Active_sender (Some 9),
            Workers_push (''t'', 0), Peers_push (fresh_peer_message\<lparr>ttl := 2\<rparr>),
            Fan_out_flush, Active_sender None]\<rparr>
   \<and> blocked_msgs unplugged_policy 9 = Some [Peer_batch [fresh_peer_message]]
   \<and> peer_to_ipath unplugged_policy 9 = None
   \<and> trace (unblock_peer ''data/clone'' (\<lambda>x s. s) 9 unplugged_policy) = []
   \<and> blocked_msgs (unblock_peer ''data/clone'' (\<lambda>x s. s) 9 unplugged_policy) 9 = None"
proof -
  let ?b = "block_peer 9 quiet_policy"
  have a: "9 \<in> blocked_peers ?b"
    by (simp add: block_peer_def)
  note th1 = blocked_peer_buffer_and_replay
    [of 9 ?b "''data/clone''" "\<lambda>x s. s" 4 "[fresh_peer_message]" "[]" "[]",
     THEN conjunct1, rule_format, OF a]
  have b: "blocked_msgs (handle_batch ''data/clone'' (\<lambda>x s. s) 4 9
             (Peer_batch [fresh_peer_message]) ?b) 9
           = Some [Peer_batch [fresh_peer_message]]"
    unfolding th1 by (simp add: buffered_def block_peer_def quiet_policy_def)
  have c: "9 \<notin> blocked_peers quiet_policy \<and> blocked_msgs quiet_policy 9 = None
           \<and> peer_to_ipath quiet_policy 9 = Some 4"
    by (simp add: quiet_policy_def)
  note th5 = blocked_peer_buffer_and_replay
    [of 9 quiet_policy "''data/clone''" "\<lambda>x s. s" 4 "[]" "[[fresh_peer_message]]" "[]",
     THEN conjunct2, THEN conjunct2, THEN conjunct2, THEN conjunct2, rule_format, OF c]
  have d: "unblock_peer ''data/clone'' (\<lambda>x s. s) 9
        (fold (handle_batch ''data/clone'' (\<lambda>x s. s) 4 9) (map Peer_batch [[fresh_peer_message]])
           (block_peer 9 quiet_policy))
       = quiet_policy\<lparr>trace :=
           [Active_sender None, Fan_out_flush, Active_sender (Some 9),
            Workers_push (''t'', 0), Peers_push (fresh_peer_message\<lparr>ttl := 2\<rparr>),
            Fan_out_flush, Active_sender None]\<rparr>"
    unfolding th5 by (simp add: deliver_fresh)
  have e: "blocked_msgs unplugged_policy 9 = Some [Peer_batch [fresh_peer_message]]
           \<and> peer_to_ipath unplugged_policy 9 = None"
    by (simp add: unplugged_policy_def)
  note th4 = blocked_peer_buffer_and_replay
    [of 9 unplugged_policy "''data/clone''" "\<lambda>x s. s" 4 "[]" "[]"
        "[Peer_batch [fresh_peer_message]]",
     THEN conjunct2, THEN conjunct2, THEN conjunct2, THEN conjunct1, rule_format, OF e]
  have f: "trace (unblock_peer ''data/clone'' (\<lambda>x s. s) 9 unplugged_policy) = []
           \<and> blocked_msgs (unblock_peer ''data/clone'' (\<lambda>x s. s) 9 unplugged_policy) 9 = None"
    unfolding th4 by (simp add: unplugged_policy_def)
  from a b c d e f show ?thesis by blast
qed

text \<open>
  C6. What \<open>handle_batch\<close> does with a node message whose TTL is 0 on entry, with
  forwarding on and a topic that is no clone topic: the content is pushed to the workers,
  the decrement wraps the TTL to 65535, which is not 0, and the message is pushed to the
  peers.
\<close>

theorem handle_batch_forwards_ttl0:
  "ttl expired_peer_message = 0
   \<and> handle_batch ''data/clone'' (\<lambda>x s. s) 4 9 (Peer_batch [expired_peer_message]) quiet_policy
     = quiet_policy\<lparr>trace :=
         [Workers_push (''t'', 0), Peers_push (expired_peer_message\<lparr>ttl := 65535\<rparr>)]\<rparr>"
proof -
  have "forward_message ''data/clone'' True 1 0 expired_peer_message
        = ([Workers_push (''t'', 0), Peers_push (expired_peer_message\<lparr>ttl := 0 - 1\<rparr>)]
           :: (nat, nat, nat, nat) policy_event list)"
    by (simp add: forward_message_def ends_with_t expired_peer_message_def)
  then show ?thesis
    unfolding minus_one_word16
    by (simp add: handle_batch_def emit_def quiet_policy_def) (simp add: expired_peer_message_def)
qed

section \<open>Properties of the multipath container\<close>

lemma move_assign_fst: "fst (move_assign d x) = x"
  by (cases x) (simp add: move_assign_def)

lemma move_range_eq:
  "length xs \<le> length ds \<Longrightarrow> move_range xs ds = xs @ drop (length xs) ds"
  by (induction xs ds rule: move_range.induct) (simp_all add: move_assign_fst)

lemma mp_invD:
  assumes "mp_inv m"
  shows "reserved_m m = length (nodes_m m)" and "size_m m \<le> reserved_m m"
    and "sorted_wrt (<) (map id_m (nodes m))" and "\<And>c. c \<in> set (nodes_m m) \<Longrightarrow> mp_inv c"
  using assms by (cases m; simp add: nodes_def)+

lemma mp_invI:
  assumes "r = length ns" and "s \<le> r" and "sorted_wrt (<) (map id_m (take s ns))"
    and "\<And>c. c \<in> set ns \<Longrightarrow> mp_inv c"
  shows "mp_inv (Multipath i ns s r)"
  using assms by simp

lemma mp_inv_default: "mp_inv default_multipath"
  by (simp add: default_multipath_def)

lemma mp_inv_multipath_of: "mp_inv (multipath_of i)"
  by (simp add: multipath_of_def)

lemma shapes_take: "shapes n ns = map shape (take n ns)"
proof (induction ns arbitrary: n)
  case Nil
  then show ?case by (cases n) simp_all
next
  case (Cons x xs)
  then show ?case by (cases n) simp_all
qed

lemma shape_eq: "shape m = Tree (id_m m) (map shape (nodes m))"
  by (cases m) (simp add: shapes_take nodes_def)

lemma length_nodes: "mp_inv m \<Longrightarrow> length (nodes m) = size_m m"
  using mp_invD(1,2) [of m] by (simp add: nodes_def)

lemma nodes_subset: "set (nodes m) \<subseteq> set (nodes_m m)"
  by (simp add: nodes_def set_take_subset)

lemma grow_if_needed_spec:
  assumes "mp_inv m"
  shows "mp_inv (grow_if_needed m)"
    and "id_m (grow_if_needed m) = id_m m"
    and "size_m (grow_if_needed m) = size_m m"
    and "nodes (grow_if_needed m) = nodes m"
    and "size_m (grow_if_needed m) < reserved_m (grow_if_needed m)"
proof -
  note r = mp_invD(1) [OF assms] and s = mp_invD(2) [OF assms]
    and srt = mp_invD(3) [OF assms] and ch = mp_invD(4) [OF assms]
  define new where "new = move_range (take (size_m m) (nodes_m m))
                (replicate (reserved_m m + block_size) default_multipath)"
  have new: "new = take (size_m m) (nodes_m m)
                    @ replicate (reserved_m m + block_size - size_m m) default_multipath"
    unfolding new_def using r s by (subst move_range_eq) simp_all
  have g: "grow_if_needed m
           = (if size_m m = reserved_m m
              then Multipath (id_m m) new (size_m m) (reserved_m m + block_size) else m)"
    by (simp add: grow_if_needed_def new_def)
  have tk: "take (size_m m) new = nodes m"
    unfolding new using r s by (simp add: nodes_def)
  show "id_m (grow_if_needed m) = id_m m" "size_m (grow_if_needed m) = size_m m"
    by (simp_all add: g)
  show "nodes (grow_if_needed m) = nodes m"
  proof (cases "size_m m = reserved_m m")
    case False
    then show ?thesis by (simp add: g)
  next
    case True
    then have "nodes (grow_if_needed m) = take (size_m m) new"
      by (simp add: g nodes_def)
    with tk show ?thesis by simp
  qed
  show "size_m (grow_if_needed m) < reserved_m (grow_if_needed m)"
    using s by (simp add: g block_size_def)
  show "mp_inv (grow_if_needed m)"
  proof (cases "size_m m = reserved_m m")
    case False
    with assms show ?thesis by (simp add: g)
  next
    case True
    have "mp_inv (Multipath (id_m m) new (size_m m) (reserved_m m + block_size))"
    proof (rule mp_invI)
      show "reserved_m m + block_size = length new"
        unfolding new using r s by simp
      show "size_m m \<le> reserved_m m + block_size"
        using s by simp
      show "sorted_wrt (<) (map id_m (take (size_m m) new))"
        unfolding tk by (rule srt)
      show "mp_inv c" if "c \<in> set new" for c
        using that ch unfolding new by (auto simp: mp_inv_default dest: in_set_takeD)
    qed
    with True show ?thesis by (simp add: g)
  qed
qed


lemma append_node_spec:
  assumes inv: "mp_inv m" and lt: "\<forall>k \<in> set (nodes m). id_m k < i"
  shows "fst (append_node i m) = size_m m"
    and "mp_inv (snd (append_node i m))"
    and "id_m (snd (append_node i m)) = id_m m"
    and "size_m (snd (append_node i m)) = size_m m + 1"
    and "nodes (snd (append_node i m)) = nodes m @ [nodes_m (snd (append_node i m)) ! size_m m]"
    and "id_m (nodes_m (snd (append_node i m)) ! size_m m) = i"
proof -
  define g where "g = grow_if_needed m"
  note gs = grow_if_needed_spec [OF inv, folded g_def]
  note r = mp_invD(1) [OF gs(1)] and ch = mp_invD(4) [OF gs(1)]
  define slot where "slot = nodes_m g ! size_m m"
  define c where "c = Multipath i (nodes_m slot) (size_m slot) (reserved_m slot)"
  have lenb: "size_m m < length (nodes_m g)"
    using gs(3,5) r by simp
  have a: "append_node i m
           = (size_m m, Multipath (id_m m) ((nodes_m g)[size_m m := c]) (size_m m + 1) (reserved_m g))"
    by (simp add: append_node_def Let_def g_def [symmetric] gs(2,3) slot_def c_def)
  have tk: "take (size_m m + 1) ((nodes_m g)[size_m m := c]) = nodes m @ [c]"
  proof -
    have "take (size_m m + 1) ((nodes_m g)[size_m m := c])
          = take (size_m m) ((nodes_m g)[size_m m := c]) @ [((nodes_m g)[size_m m := c]) ! size_m m]"
      using lenb by (simp add: take_Suc_conv_app_nth)
    also have "\<dots> = take (size_m m) (nodes_m g) @ [c]"
      using lenb by simp
    also have "take (size_m m) (nodes_m g) = nodes m"
      using gs(3,4) by (simp add: nodes_def)
    finally show ?thesis .
  qed
  have slot_inv: "mp_inv slot"
    unfolding slot_def using lenb by (intro ch) simp
  have c_inv: "mp_inv c"
    using slot_inv by (cases slot) (simp add: c_def)
  show "fst (append_node i m) = size_m m" "id_m (snd (append_node i m)) = id_m m"
    "size_m (snd (append_node i m)) = size_m m + 1"
    by (simp_all add: a)
  have nth: "nodes_m (snd (append_node i m)) ! size_m m = c"
    using lenb by (simp add: a)
  show "id_m (nodes_m (snd (append_node i m)) ! size_m m) = i"
    unfolding nth by (simp add: c_def)
  show "nodes (snd (append_node i m)) = nodes m @ [nodes_m (snd (append_node i m)) ! size_m m]"
    unfolding nth using tk by (simp add: a nodes_def)
  have "mp_inv (Multipath (id_m m) ((nodes_m g)[size_m m := c]) (size_m m + 1) (reserved_m g))"
  proof (rule mp_invI)
    show "reserved_m g = length ((nodes_m g)[size_m m := c])"
      using r by simp
    show "size_m m + 1 \<le> reserved_m g"
      using gs(3,5) by simp
    show "sorted_wrt (<) (map id_m (take (size_m m + 1) ((nodes_m g)[size_m m := c])))"
      unfolding tk using mp_invD(3) [OF inv] lt by (simp add: sorted_wrt_append c_def)
    show "mp_inv x" if "x \<in> set ((nodes_m g)[size_m m := c])" for x
      using that c_inv ch by (auto dest!: set_update_subset_insert [THEN subsetD])
  qed
  then show "mp_inv (snd (append_node i m))"
    by (simp add: a)
qed

lemma lower_bound_end:
  assumes "mp_inv m" and "\<forall>k \<in> set (nodes m). id_m k < i"
  shows "lower_bound i m = size_m m"
proof -
  have tw: "takeWhile (\<lambda>x. id_m x < i) (nodes m) = nodes m"
    using assms(2) by simp
  have "lower_bound i m = length (takeWhile (\<lambda>x. id_m x < i) (nodes m))"
    by (simp add: lower_bound_def nodes_def)
  also have "\<dots> = length (nodes m)"
    by (simp only: tw)
  finally show ?thesis
    using length_nodes [OF assms(1)] by simp
qed

lemma emplace_node_append:
  assumes "mp_inv m" and "\<forall>k \<in> set (nodes m). id_m k < i"
  shows "emplace_node i m = Some (size_m m, True, snd (append_node i m))"
  using lower_bound_end [OF assms] append_node_spec(1) [OF assms]
  by (simp add: emplace_node_def Let_def case_prod_unfold)

lemma put_node_spec:
  assumes inv: "mp_inv m" and pos: "pos < size_m m" and c: "mp_inv child"
    and i: "id_m child = id_m (nodes_m m ! pos)"
  shows "mp_inv (put_node pos child m)"
    and "nodes (put_node pos child m) = (nodes m)[pos := child]"
    and "id_m (put_node pos child m) = id_m m"
    and "size_m (put_node pos child m) = size_m m"
proof -
  note r = mp_invD(1) [OF inv] and s = mp_invD(2) [OF inv]
    and srt = mp_invD(3) [OF inv] and ch = mp_invD(4) [OF inv]
  show n: "nodes (put_node pos child m) = (nodes m)[pos := child]"
    by (simp add: put_node_def nodes_def take_update_swap)
  show "id_m (put_node pos child m) = id_m m" "size_m (put_node pos child m) = size_m m"
    by (simp_all add: put_node_def)
  have ids: "map id_m ((nodes m)[pos := child]) = map id_m (nodes m)"
  proof -
    have "nodes m ! pos = nodes_m m ! pos"
      using pos by (simp add: nodes_def)
    then have "(map id_m (nodes m))[pos := id_m child] = map id_m (nodes m)"
      using i pos length_nodes [OF inv] by (simp add: list_update_same_conv)
    then show ?thesis by (simp add: map_update)
  qed
  have "mp_inv (Multipath (id_m m) ((nodes_m m)[pos := child]) (size_m m) (reserved_m m))"
  proof (rule mp_invI)
    show "reserved_m m = length ((nodes_m m)[pos := child])" using r by simp
    show "size_m m \<le> reserved_m m" by (rule s)
    show "sorted_wrt (<) (map id_m (take (size_m m) ((nodes_m m)[pos := child])))"
      using srt ids n by (simp add: put_node_def nodes_def)
    show "mp_inv x" if "x \<in> set ((nodes_m m)[pos := child])" for x
      using that c ch by (auto dest!: set_update_subset_insert [THEN subsetD])
  qed
  then show "mp_inv (put_node pos child m)"
    by (simp add: put_node_def)
qed

lemma length_shapes: "n \<le> length ns \<Longrightarrow> length (shapes n ns) = n"
  by (simp add: shapes_take)

lemma equals_shape_aux:
  fixes a b :: "'p::linorder multipath" and xs ys :: "'p multipath list"
  shows "mp_inv a \<longrightarrow> mp_inv b \<longrightarrow> equals a b = (shape a = shape b)"
    and "(\<forall>c \<in> set xs. mp_inv c) \<longrightarrow> (\<forall>c \<in> set ys. mp_inv c) \<longrightarrow>
        n \<le> length xs \<longrightarrow> n \<le> length ys \<longrightarrow>
        equals_nodes n xs ys = (shapes n xs = shapes n ys)"
proof (induction a b and n xs ys rule: equals_equals_nodes.induct)
  case (1 i ns s r other)
  show ?case
  proof (intro impI)
    assume a: "mp_inv (Multipath i ns s r)" and b: "mp_inv other"
    obtain i' ns' s' r' where o: "other = Multipath i' ns' s' r'" by (cases other)
    from a have la: "s \<le> length ns" and ca: "\<forall>c \<in> set ns. mp_inv c" by auto
    from b have lb: "s' \<le> length ns'" and cb: "\<forall>c \<in> set ns'. mp_inv c" by (auto simp: o)
    show "equals (Multipath i ns s r) other = (shape (Multipath i ns s r) = shape other)"
    proof (cases "s = s'")
      case True
      with 1 ca cb la lb have "equals_nodes s ns ns' = (shapes s ns = shapes s ns')"
        by (simp add: o)
      with True show ?thesis by (simp add: o)
    next
      case False
      have "shapes s ns \<noteq> shapes s' ns'"
        using False length_shapes [OF la] length_shapes [OF lb] by metis
      with False show ?thesis by (simp add: o)
    qed
  qed
next
  case (2 xs ys)
  then show ?case by simp
next
  case (3 n x xs y ys)
  then show ?case by auto
next
  case (4 n ys)
  then show ?case by simp
next
  case (5 n x xs)
  then show ?case by simp
qed

lemma equals_shape: "mp_inv a \<Longrightarrow> mp_inv b \<Longrightarrow> equals a b = (shape a = shape b)"
  using equals_shape_aux(1) [of a b] by simp

subsection \<open>Insertion before an existing child\<close>

text \<open>
  When the array has room, \<open>insert_at\<close> shifts the children from \<open>pos\<close> on by one place
  and puts a fresh node with the id at \<open>pos\<close>; the invariant is kept.
\<close>


lemma move_backward_update:
  "pos \<le> e \<Longrightarrow> e < length buf \<Longrightarrow>
   (move_backward pos e buf)[pos := v]
   = take pos buf @ [v] @ drop pos (take e buf) @ drop (Suc e) buf"
proof (induction pos e buf rule: move_backward.induct)
  case (1 pos e buf)
  show ?case
  proof (cases "pos < e")
    case False
    with 1(2) have pe: "pos = e" by simp
    have "buf[e := v] = take e buf @ [v] @ drop (Suc e) buf"
      using 1(3) by (simp add: upd_conv_take_nth_drop)
    then show ?thesis
      using False by (subst move_backward.simps) (simp add: pe)
  next
    case True
    obtain d s where ds: "move_assign (buf ! e) (buf ! (e - 1)) = (d, s)"
      by (cases "move_assign (buf ! e) (buf ! (e - 1))")
    have d: "d = buf ! (e - 1)"
      using move_assign_fst [of "buf ! e" "buf ! (e - 1)"] ds by simp
    define buf' where "buf' = buf[e := d, e - 1 := s]"
    have len: "length buf' = length buf" by (simp add: buf'_def)
    have mb: "move_backward pos e buf = move_backward pos (e - 1) buf'"
      using True ds by (subst move_backward.simps) (simp add: buf'_def)
    have ih: "(move_backward pos (e - 1) buf')[pos := v]
              = take pos buf' @ [v] @ drop pos (take (e - 1) buf') @ drop (Suc (e - 1)) buf'"
      using True 1(3) len
      by (intro 1(1) [OF True ds [symmetric] refl, folded buf'_def]) simp_all
    have t1: "take pos buf' = take pos buf"
      using True by (simp add: buf'_def)
    have t2: "take (e - 1) buf' = take (e - 1) buf"
      by (simp add: buf'_def)
    have t3: "drop (Suc (e - 1)) buf' = buf ! (e - 1) # drop (Suc e) buf"
    proof -
      have "drop e buf' = drop e (buf[e := d])"
        using True by (simp add: buf'_def)
      also have "\<dots> = d # drop (Suc e) buf"
        using 1(3) by (simp add: upd_conv_take_nth_drop)
      finally show ?thesis using True d by simp
    qed
    have t4: "drop pos (take e buf) = drop pos (take (e - 1) buf) @ [buf ! (e - 1)]"
    proof -
      have "take e buf = take (e - 1) buf @ [buf ! (e - 1)]"
        using True 1(3) take_Suc_conv_app_nth [of "e - 1" buf] by simp
      moreover have "pos \<le> length (take (e - 1) buf)"
        using True 1(3) by simp
      ultimately show ?thesis by simp
    qed
    show ?thesis
      unfolding mb ih t1 t2 t3 t4 by simp
  qed
qed

lemma insert_at_spec:
  assumes inv: "mp_inv m" and pos: "pos < size_m m" and room: "size_m m \<noteq> reserved_m m"
    and lo: "\<forall>k \<in> set (take pos (nodes m)). id_m k < i"
    and hi: "\<forall>k \<in> set (drop pos (nodes m)). i < id_m k"
  shows "\<exists>m'. insert_at pos i m = Some (pos, m') \<and> mp_inv m' \<and> id_m m' = id_m m
              \<and> size_m m' = size_m m + 1
              \<and> nodes m' = take pos (nodes m) @ [multipath_of i] @ drop pos (nodes m)"
proof -
  note r = mp_invD(1) [OF inv] and s = mp_invD(2) [OF inv]
    and srt = mp_invD(3) [OF inv] and ch = mp_invD(4) [OF inv]
  define buf where "buf = move_backward pos (size_m m) (nodes_m m)"
  define buf1 where "buf1 = buf[pos := fst (move_assign (buf ! pos) (multipath_of i))]"
  define m' where "m' = Multipath (id_m m) buf1 (size_m m + 1) (reserved_m m)"
  have lt: "size_m m < length (nodes_m m)"
    using r s room by simp
  have b1: "buf1 = take pos (nodes_m m) @ [multipath_of i]
                   @ drop pos (take (size_m m) (nodes_m m)) @ drop (Suc (size_m m)) (nodes_m m)"
    unfolding buf1_def buf_def move_assign_fst
    using pos lt by (intro move_backward_update) simp_all
  have ia: "insert_at pos i m = Some (pos, m')"
    using room by (simp add: insert_at_def Let_def m'_def buf1_def buf_def)
  have tp: "take pos (nodes_m m) = take pos (nodes m)"
    using pos by (simp add: nodes_def min_def)
  have len1: "length buf1 = length (nodes_m m)"
    using pos lt unfolding b1 by simp
  have n': "take (size_m m + 1) buf1 = take pos (nodes m) @ [multipath_of i] @ drop pos (nodes m)"
  proof -
    have "length (take pos (nodes_m m) @ [multipath_of i]
                  @ drop pos (take (size_m m) (nodes_m m))) = size_m m + 1"
      using pos lt by simp
    then have "take (size_m m + 1) buf1
               = take pos (nodes_m m) @ [multipath_of i] @ drop pos (take (size_m m) (nodes_m m))"
      unfolding b1 by (metis append.assoc append_eq_conv_conj)
    then show ?thesis by (simp add: tp nodes_def)
  qed
  have "mp_inv m'"
    unfolding m'_def
  proof (rule mp_invI)
    show "reserved_m m = length buf1" using r len1 by simp
    show "size_m m + 1 \<le> reserved_m m" using r lt by simp
    show "sorted_wrt (<) (map id_m (take (size_m m + 1) buf1))"
    proof -
      have "map id_m (nodes m) = map id_m (take pos (nodes m)) @ map id_m (drop pos (nodes m))"
        by (simp flip: map_append)
      with srt have "sorted_wrt (<) (map id_m (take pos (nodes m)) @ map id_m (drop pos (nodes m)))"
        by (simp only:)
      then have "sorted_wrt (<) (map id_m (take pos (nodes m)))"
        and "sorted_wrt (<) (map id_m (drop pos (nodes m)))"
        and "\<forall>x \<in> set (take pos (nodes m)). \<forall>y \<in> set (drop pos (nodes m)). id_m x < id_m y"
        by (simp_all add: sorted_wrt_append)
      then show ?thesis
        unfolding n' using lo hi
        by (simp add: sorted_wrt_append multipath_of_def)
    qed
    show "mp_inv c" if "c \<in> set buf1" for c
    proof -
      from that have "c = multipath_of i \<or> c \<in> set (nodes_m m)"
        unfolding b1 by (auto dest: in_set_takeD in_set_dropD)
      then show ?thesis using ch mp_inv_multipath_of by auto
    qed
  qed
  moreover have "nodes m' = take pos (nodes m) @ [multipath_of i] @ drop pos (nodes m)"
    using n' by (simp add: m'_def nodes_def)
  ultimately show ?thesis
    using ia by (simp add: m'_def)
qed


text \<open>
  \<open>emplace_node\<close> on a node that satisfies the invariant: a child with the id is found
  and returned unchanged; where the call is defined, the invariant holds afterwards and
  the returned iterator points to the child with the id; the call is undefined exactly
  when the array is full and the id belongs before an existing child.
\<close>


lemma lower_bound_props:
  assumes inv: "mp_inv m"
  shows "lower_bound i m \<le> size_m m"
    and "\<forall>k \<in> set (take (lower_bound i m) (nodes m)). id_m k < i"
    and "lower_bound i m < size_m m \<Longrightarrow> \<not> id_m (nodes_m m ! lower_bound i m) < i"
    and "lower_bound i m < size_m m \<Longrightarrow> id_m (nodes_m m ! lower_bound i m) \<noteq> i \<Longrightarrow>
         \<forall>k \<in> set (drop (lower_bound i m) (nodes m)). i < id_m k"
proof -
  let ?P = "\<lambda>x. id_m x < i"
  have lb: "lower_bound i m = length (takeWhile ?P (nodes m))"
    by (simp add: lower_bound_def nodes_def)
  note len = length_nodes [OF inv]
  show le: "lower_bound i m \<le> size_m m"
    using length_takeWhile_le [of ?P "nodes m"] unfolding lb len .
  have tk: "take (lower_bound i m) (nodes m) = takeWhile ?P (nodes m)"
    unfolding lb by (rule takeWhile_eq_take [symmetric])
  show "\<forall>k \<in> set (take (lower_bound i m) (nodes m)). id_m k < i"
    unfolding tk by (auto dest: set_takeWhileD)
  have nth: "nodes m ! p = nodes_m m ! p" if "p < size_m m" for p
    using that by (simp add: nodes_def)
  show ge: "\<not> id_m (nodes_m m ! lower_bound i m) < i" if "lower_bound i m < size_m m"
    using that nth_length_takeWhile [of ?P "nodes m"] len nth [OF that] unfolding lb by simp
  show "\<forall>k \<in> set (drop (lower_bound i m) (nodes m)). i < id_m k"
    if lt: "lower_bound i m < size_m m" and ne: "id_m (nodes_m m ! lower_bound i m) \<noteq> i"
  proof -
    define p where "p = lower_bound i m"
    from ge [OF lt] ne have first: "i < id_m (nodes m ! p)"
      using nth [OF lt] by (simp add: p_def)
    have d: "drop p (nodes m) = nodes m ! p # drop (Suc p) (nodes m)"
      using lt len by (simp add: p_def Cons_nth_drop_Suc)
    have "sorted_wrt (<) (drop p (map id_m (nodes m)))"
      using mp_invD(3) [OF inv] by (rule sorted_wrt_drop)
    then have "sorted_wrt (<) (map id_m (nodes m ! p # drop (Suc p) (nodes m)))"
      by (simp only: drop_map d)
    then have "\<forall>k \<in> set (drop (Suc p) (nodes m)). id_m (nodes m ! p) < id_m k"
      by simp
    with first have "\<forall>k \<in> set (nodes m ! p # drop (Suc p) (nodes m)). i < id_m k"
      by auto
    then show ?thesis
      by (simp only: d p_def [symmetric])
  qed
qed

lemma lower_bound_found:
  assumes inv: "mp_inv m" and pos: "pos < size_m m" and i: "id_m (nodes_m m ! pos) = i"
  shows "lower_bound i m = pos"
proof -
  let ?P = "\<lambda>x. id_m x < i"
  note len = length_nodes [OF inv]
  have nth: "nodes m ! pos = nodes_m m ! pos"
    using pos by (simp add: nodes_def)
  have "takeWhile ?P (nodes m) = take pos (nodes m)"
  proof (rule takeWhile_eq_take_P_nth)
    fix j assume "j < pos" "j < length (nodes m)"
    with sorted_wrt_nth_less [OF mp_invD(3) [OF inv], of j pos] pos len i nth
    show "id_m (nodes m ! j) < i" by simp
  next
    show "\<not> id_m (nodes m ! pos) < i" using i nth by simp
  qed
  then have "lower_bound i m = length (take pos (nodes m))"
    by (simp add: lower_bound_def nodes_def)
  with pos len show ?thesis by simp
qed

lemma emplace_node_found:
  assumes "mp_inv m" and "pos < size_m m" and "id_m (nodes_m m ! pos) = i"
  shows "emplace_node i m = Some (pos, False, m)"
  using lower_bound_found [OF assms] assms(2,3)
  by (simp add: emplace_node_def Let_def)

lemma emplace_node_spec:
  assumes inv: "mp_inv m" and e: "emplace_node i m = Some (pos, b, m')"
  shows "mp_inv m'" and "pos < size_m m'" and "id_m (nodes_m m' ! pos) = i"
    and "id_m m' = id_m m"
proof -
  note lb = lower_bound_props [OF inv, of i]
  have "mp_inv m' \<and> pos < size_m m' \<and> id_m (nodes_m m' ! pos) = i \<and> id_m m' = id_m m"
  proof (cases "lower_bound i m = size_m m")
    case True
    then have all: "\<forall>k \<in> set (nodes m). id_m k < i"
      using lb(2) length_nodes [OF inv] by simp
    from e emplace_node_append [OF inv all]
    have "pos = size_m m" "m' = snd (append_node i m)" by simp_all
    with append_node_spec [OF inv all] show ?thesis by simp
  next
    case False
    with lb(1) have lt: "lower_bound i m < size_m m" by simp
    show ?thesis
    proof (cases "id_m (nodes_m m ! lower_bound i m) = i")
      case True
      with False have "emplace_node i m = Some (lower_bound i m, False, m)"
        by (simp add: emplace_node_def Let_def)
      then have "Some (pos, b, m') = Some (lower_bound i m, False, m)"
        using e by (simp only:)
      then have "pos = lower_bound i m" "m' = m"
        by simp_all
      with True lt inv show ?thesis by simp
    next
      case ne: False
      from e False ne have ia: "insert_at (lower_bound i m) i m = Some (pos, m')"
        by (auto simp: emplace_node_def Let_def split: option.splits)
      then have room: "size_m m \<noteq> reserved_m m"
        by (auto simp: insert_at_def split: if_splits)
      from insert_at_spec [OF inv lt room lb(2) lb(4) [OF lt ne]] ia
      have p: "pos = lower_bound i m" and i': "mp_inv m'" and id: "id_m m' = id_m m"
        and sz: "size_m m' = size_m m + 1"
        and n: "nodes m' = take pos (nodes m) @ [multipath_of i] @ drop pos (nodes m)"
        by auto
      have "pos < size_m m'" using lt p sz by simp
      moreover have "nodes m' ! pos = multipath_of i"
        unfolding n using lt p length_nodes [OF inv] by (simp add: nth_append)
      moreover have "nodes m' ! pos = nodes_m m' ! pos"
        using \<open>pos < size_m m'\<close> by (simp add: nodes_def)
      ultimately show ?thesis
        using i' id by (simp add: multipath_of_def)
    qed
  qed
  then show "mp_inv m'" and "pos < size_m m'" and "id_m (nodes_m m' ! pos) = i"
    and "id_m m' = id_m m"
    by simp_all
qed

lemma emplace_node_None_iff:
  "(emplace_node i m = None)
   = (size_m m = reserved_m m \<and> lower_bound i m \<noteq> size_m m
      \<and> id_m (nodes_m m ! lower_bound i m) \<noteq> i)"
  by (auto simp: emplace_node_def Let_def insert_at_def case_prod_unfold split: option.splits)


subsection \<open>Splicing a path a second time\<close>

text \<open>
  Where the first application of \<open>splice\<close> is defined, a second application of the same
  path changes nothing. The constructor from a linear path is defined for every
  non-empty path (each \<open>emplace_node\<close> on the way appends to a fresh node), and splicing
  the same path into its result changes nothing.
\<close>


lemma put_node_same:
  "nodes_m m ! pos = child \<Longrightarrow> pos < length (nodes_m m) \<Longrightarrow> put_node pos child m = m"
  by (cases m) (simp add: put_node_def list_update_same_conv)

lemma put_node_nth:
  "pos < length (nodes_m m) \<Longrightarrow> nodes_m (put_node pos child m) ! pos = child"
  by (simp add: put_node_def)

lemma pos_in_array: "mp_inv m \<Longrightarrow> pos < size_m m \<Longrightarrow> pos < length (nodes_m m)"
  using mp_invD(1,2) [of m] by simp

lemma descend_again:
  assumes inv2: "mp_inv m2" and pos: "pos < size_m m2" and idx: "id_m (nodes_m m2 ! pos) = x"
    and cinv: "mp_inv child" and cid: "id_m child = x"
  shows "mp_inv (put_node pos child m2)"
    and "emplace_node x (put_node pos child m2) = Some (pos, False, put_node pos child m2)"
    and "nodes_m (put_node pos child m2) ! pos = child"
    and "put_node pos child (put_node pos child m2) = put_node pos child m2"
    and "id_m (put_node pos child m2) = id_m m2"
proof -
  note pa = pos_in_array [OF inv2 pos]
  note pn = put_node_spec [OF inv2 pos cinv, unfolded idx, OF cid]
  show "mp_inv (put_node pos child m2)" by (rule pn(1))
  show nth: "nodes_m (put_node pos child m2) ! pos = child"
    by (rule put_node_nth [OF pa])
  show "emplace_node x (put_node pos child m2) = Some (pos, False, put_node pos child m2)"
    using pos pn(4) nth cid by (intro emplace_node_found [OF pn(1)]) simp_all
  show "put_node pos child (put_node pos child m2) = put_node pos child m2"
    using pa by (intro put_node_same [OF nth]) (simp add: put_node_def)
  show "id_m (put_node pos child m2) = id_m m2" by (rule pn(3))
qed

lemma splice_cont_again:
  "mp_inv m \<Longrightarrow> splice_cont q m = Some m1 \<Longrightarrow>
   mp_inv m1 \<and> id_m m1 = id_m m \<and> splice_cont q m1 = Some m1"
proof (induction q arbitrary: m m1)
  case Nil
  then show ?case by simp
next
  case (Cons x rest)
  from Cons.prems(2) obtain pos b m2 where e: "emplace_node x m = Some (pos, b, m2)"
    by (auto split: option.splits)
  note es = emplace_node_spec [OF Cons.prems(1) e]
  show ?case
  proof (cases "rest = []")
    case True
    with Cons.prems(2) e have "m1 = m2" by simp
    with es True emplace_node_found [OF es(1,2,3)] show ?thesis by simp
  next
    case False
    with Cons.prems(2) e obtain child where
      c: "splice_cont rest (nodes_m m2 ! pos) = Some child" and m1: "m1 = put_node pos child m2"
      by (auto split: option.splits)
    have "mp_inv (nodes_m m2 ! pos)"
      using pos_in_array [OF es(1,2)] by (intro mp_invD(4) [OF es(1)]) simp
    from Cons.IH [OF this c] es(3)
    have ci: "mp_inv child" "id_m child = x" "splice_cont rest child = Some child"
      by simp_all
    note da = descend_again [OF es(1,2,3) ci(1,2), folded m1]
    have "splice_cont (x # rest) m1 = Some m1"
      using False da(2,3,4) ci(3) by simp
    with da(1,5) es(4) show ?thesis by simp
  qed
qed

lemma splice_as_cont:
  "x = id_m m \<Longrightarrow> splice (x # y # rest) m = map_option (Pair True) (splice_cont (y # rest) m)"
  by (auto split: option.splits)

lemma splice_again:
  assumes "mp_inv p" and "splice q p = Some (b, p1)"
  shows "mp_inv p1 \<and> id_m p1 = id_m p \<and> splice q p1 = Some (b, p1)"
proof (cases q)
  case Nil
  with assms show ?thesis by simp
next
  case (Cons x q')
  show ?thesis
  proof (cases "x = id_m p")
    case False
    with assms Cons show ?thesis by (cases q') auto
  next
    case True
    show ?thesis
    proof (cases q')
      case Nil
      with assms Cons True show ?thesis by simp
    next
      case (Cons y rest)
      with assms(2) \<open>q = x # q'\<close> True
      obtain m1 where sc: "splice_cont (y # rest) p = Some m1" and b: "b = True" "p1 = m1"
        by (auto simp: splice_as_cont simp del: splice.simps splice_cont.simps)
      from splice_cont_again [OF assms(1) sc]
      have "mp_inv m1" "id_m m1 = id_m p" "splice_cont (y # rest) m1 = Some m1"
        by simp_all
      then show ?thesis
        using True b Cons \<open>q = x # q'\<close>
        by (simp add: splice_as_cont del: splice.simps splice_cont.simps)
    qed
  qed
qed

lemma append_node_fresh:
  "append_node i (multipath_of x)
   = (0, Multipath x (multipath_of i # replicate 15 default_multipath) 1 16)"
  by (simp add: append_node_def grow_if_needed_def multipath_of_def block_size_def
        default_multipath_def Let_def numeral_eq_Suc)

lemma emplace_node_fresh:
  "emplace_node i (multipath_of x)
   = Some (0, True, Multipath x (multipath_of i # replicate 15 default_multipath) 1 16)"
proof -
  have "lower_bound i (multipath_of x) = size_m (multipath_of x)"
    by (simp add: lower_bound_def multipath_of_def)
  then show ?thesis
    by (simp add: emplace_node_def Let_def append_node_fresh)
qed

lemma emplace_chain_fresh:
  "\<exists>m. emplace_chain rest (multipath_of x) = Some m"
proof (induction rest arbitrary: x)
  case Nil
  then show ?case by simp
next
  case (Cons y rest)
  from Cons.IH [of y] obtain child where "emplace_chain rest (multipath_of y) = Some child" ..
  then show ?case
    by (simp add: emplace_node_fresh)
qed

lemma emplace_chain_again:
  "mp_inv m \<Longrightarrow> emplace_chain q m = Some m1 \<Longrightarrow>
   mp_inv m1 \<and> id_m m1 = id_m m \<and> (q \<noteq> [] \<longrightarrow> splice_cont q m1 = Some m1)"
proof (induction q arbitrary: m m1)
  case Nil
  then show ?case by simp
next
  case (Cons x rest)
  from Cons.prems(2) obtain pos b m2 child where e: "emplace_node x m = Some (pos, b, m2)"
    and c: "emplace_chain rest (nodes_m m2 ! pos) = Some child"
    and m1: "m1 = put_node pos child m2"
    by (auto split: option.splits)
  note es = emplace_node_spec [OF Cons.prems(1) e]
  have "mp_inv (nodes_m m2 ! pos)"
    using pos_in_array [OF es(1,2)] by (intro mp_invD(4) [OF es(1)]) simp
  from Cons.IH [OF this c] es(3)
  have ci: "mp_inv child" "id_m child = x" "rest \<noteq> [] \<longrightarrow> splice_cont rest child = Some child"
    by simp_all
  note da = descend_again [OF es(1,2,3) ci(1,2), folded m1]
  have "splice_cont (x # rest) m1 = Some m1"
    using da(2,3,4) ci(3) by simp
  with da(1,5) es(4) show ?case by simp
qed

lemma from_linear_splice:
  assumes "seq \<noteq> []"
  shows "\<exists>m. from_linear seq = Some m \<and> mp_inv m \<and> splice seq m = Some (True, m)
             \<and> equals m m"
proof -
  from assms obtain x rest where seq: "seq = x # rest" by (cases seq) auto
  from emplace_chain_fresh [of rest x] obtain m where m: "emplace_chain rest (multipath_of x) = Some m" ..
  from emplace_chain_again [OF mp_inv_multipath_of m]
  have mi: "mp_inv m" "id_m m = x" "rest \<noteq> [] \<longrightarrow> splice_cont rest m = Some m"
    by (simp_all add: multipath_of_def)
  have "splice (x # rest) m = Some (True, m)"
  proof (cases rest)
    case Nil
    with mi show ?thesis by simp
  next
    case (Cons y rest')
    with mi show ?thesis
      by (simp add: splice_as_cont del: splice.simps splice_cont.simps)
  qed
  with m mi(1) show ?thesis
    by (simp add: seq equals_shape)
qed


text \<open>
  C9. The node \<open>full_node\<close> is built by sixteen calls of \<open>emplace_node\<close> on a fresh node;
  its array is full. Emplacing the id 3, which belongs between the children 2 and 4, takes
  the branch \<open>insert_at\<close> with a full array: the iterator is used after the array it points
  into was replaced, so the call has no defined result.
\<close>

theorem emplace_node_full_array:
  "emplace_all [2, 4, 6, 8, 10, 12, 14, 16, 18, 20, 22, 24, 26, 28, 30, 32] (multipath_of 100)
     = Some full_node
   \<and> size_m full_node = reserved_m full_node
   \<and> emplace_node 3 full_node = None"
  by code_simp

text \<open>
  C8. On the same node, \<open>splice\<close> of the path \<open>[100, 3]\<close>, whose first element is the id of
  the node, has no defined result either: there is no tree after one application to
  compare a second application with.
\<close>

theorem splice_full_array:
  "id_m full_node = 100 \<and> splice [100, 3] full_node = None"
  by code_simp

section \<open>Properties of the assignment between multipaths\<close>

text \<open>
  On objects that share no storage, the operations on the store do what the operations
  of the container section do: the constructor from a linear path, \<open>emplace_node\<close> at
  the end and before an existing child, the growth of a full array, and the insertion
  into a full array, which has no defined result.
\<close>

lemma store_agrees_with_values:
  "do { (p, h) \<leftarrow> construct_linear [7, 8, 9] empty_heap; load 3 h p } = from_linear [7, 8, 9]"
  "from_linear [7, 8, 9] = Some chain_789"
  "do { h \<leftarrow> emplace_all_h [2, 4, 6, 8, 10, 12, 14, 16, 18, 20, 22, 24, 26, 28, 30, 32]
              (Var 0) heap_100;
        load 2 h (Var 0) }
     = emplace_all [2, 4, 6, 8, 10, 12, 14, 16, 18, 20, 22, 24, 26, 28, 30, 32]
         (multipath_of 100)"
  "do { h \<leftarrow> emplace_all_h [2, 4, 6, 8, 10, 12, 14, 16, 18, 20, 22, 24, 26, 28, 30, 32, 34]
              (Var 0) heap_100;
        load 2 h (Var 0) }
     = emplace_all [2, 4, 6, 8, 10, 12, 14, 16, 18, 20, 22, 24, 26, 28, 30, 32, 34]
         (multipath_of 100)"
  "do { h \<leftarrow> emplace_all_h [2, 6, 4, 3, 6, 1] (Var 0) heap_100; load 2 h (Var 0) }
     = emplace_all [2, 6, 4, 3, 6, 1] (multipath_of 100)"
  "do { h \<leftarrow> emplace_all_h [2, 4, 6, 8, 10, 12, 14, 16, 18, 20, 22, 24, 26, 28, 30, 32]
              (Var 0) heap_100;
        emplace_node_h (Var 0) 3 h } = None"
  by code_simp+

text \<open>
  \<open>lower_bound_h\<close> on children that are sorted by id, and on children that are not
  partitioned by the comparison with the id 10.
\<close>

lemma lower_bound_h_samples:
  "lower_bound_h 10 [Object 9 None 0 0, Object (20::nat) None 0 0] = Some 1"
  "lower_bound_h 10 [Object 20 None 0 0, Object (9::nat) None 0 0] = None"
  by code_simp+

text \<open>
  A run of the copy assignment that does not exceed the depth it was given is the same
  at every greater depth.
\<close>

lemma more_fuel:
  fixes h :: "'p::{linorder,default} heap"
  shows "copy_assign fuel this other h \<noteq> Out_of_fuel \<Longrightarrow>
         copy_assign (fuel + k) this other h = copy_assign fuel this other h"
    and "copy_nodes fuel this first i n h \<noteq> Out_of_fuel \<Longrightarrow>
         copy_nodes (fuel + k) this first i n h = copy_nodes fuel this first i n h"
proof (induction fuel this other h and fuel this first i n h rule: copy_assign_copy_nodes.induct)
  case (1 this other h)
  then show ?case by simp
next
  case (2 fuel this other h)
  then show ?case by (auto split: option.splits)
next
  case (3 fuel this first i h)
  then show ?case by simp
next
  case (4 fuel this first i n h)
  show ?case
  proof (cases "emplace_copy this (Elem first i) h")
    case None
    then show ?thesis by simp
  next
    case (Some a)
    obtain child h1 where a: "a = (child, h1)" by (cases a)
    show ?thesis
    proof (cases "copy_assign fuel child (Elem first i) h1")
      case Undefined
      with 4(1) [OF Some a [symmetric]] Some a show ?thesis by simp
    next
      case Out_of_fuel
      with 4(3) Some a show ?thesis by simp
    next
      case (Returns h2)
      with 4(1) [OF Some a [symmetric]] have
        c: "copy_assign (fuel + k) child (Elem first i) h1 = Returns h2" by simp
      from 4(3) Some a Returns have "copy_nodes fuel this first (Suc i) n h2 \<noteq> Out_of_fuel"
        by simp
      from 4(2) [OF Some a [symmetric] Returns this] Some a Returns c
      show ?thesis by simp
    qed
  qed
qed

text \<open>
  Copies that come out equal to their source \<open>p\<close>, the chain 7, 8, 9: the copy
  constructor; the assignment to the object 1 with the children 2 and 3, whose array is
  reused; and the assignment \<open>p = p.nodes()[0]\<close> of a child to its parent, which leaves
  \<open>p\<close> as the chain 8, 9 that the child was.
\<close>

lemma copy_assign_samples:
  "(let (c, res) = copy_construct 3 (Var 0) heap_789 in tree_after 3 c res)
     = Some (Tree 7 [Tree 8 [Tree 9 []]])"
  "do { (t, h1) \<leftarrow> construct_linear [1, 2] heap_789;
        (c, inserted, h2) \<leftarrow> emplace_node_h t 3 h1;
        Some (tree_of 3 h2 t, tree_after 3 t (copy_assign 3 t (Var 0) h2)) }
     = Some (Some (Tree 1 [Tree 2 [], Tree 3 []]), Some (Tree 7 [Tree 8 [Tree 9 []]]))"
  "tree_of 2 heap_789 (Elem (Some 0) 0) = Some (Tree 8 [Tree 9 []])"
  "tree_after 3 (Var 0) (copy_assign 3 (Var 0) (Elem (Some 0) 0) heap_789)
     = Some (Tree 8 [Tree 9 []])"
  by code_simp+

text \<open>
  The array of an element that an assignment left behind is deleted, with the arrays
  below it, when a later insertion overwrites the element: \<open>u\<close> is the object 1 with the
  children 2 and 3, the latter with the chain 6, 7 below it (arrays 0, 1 and 2); after
  \<open>u = q\<close> for the chain 4, 5 and \<open>u.emplace_node(0)\<close>, the arrays 1 and 2 are gone.
\<close>

lemma insertion_deletes_stale_arrays:
  "do { (u, h1) \<leftarrow> construct_linear [1, 3, 6, 7] empty_heap;
        (c, inserted, h2) \<leftarrow> emplace_node_h u 2 h1;
        (q, h3) \<leftarrow> construct_linear [4, 5] h2;
        case copy_assign 3 u q h3 of
          Returns h4 \<Rightarrow> do {
            (c, inserted, h5) \<leftarrow> emplace_node_h u 0 h4;
            Some (tree_of 4 h3 u, tree_of 3 h4 u, tree_of 3 h5 u,
                  map (map_option length) (arrays h5))
          }
        | _ \<Rightarrow> None }
     = Some (Some (Tree 1 [Tree 2 [], Tree 3 [Tree 6 [Tree 7 []]]]),
             Some (Tree 4 [Tree 5 []]),
             Some (Tree 4 [Tree 0 [], Tree 5 []]),
             [Some 16, None, None, Some 16])"
  by code_simp

text \<open>
  The two ways in which a copy assignment fails, in general. The self-assignment of an
  object of the store returns and leaves the object with a \<open>size_\<close> of 0, whatever
  children it had. The assignment to an object that has no array but a \<open>reserved_\<close>
  other than 0, as a moved-from object has, from another object that has a child, is
  undefined: \<open>append\<close> does not allocate and writes through \<open>nullptr\<close>.
\<close>

lemma store_deref:
  assumes "deref h r = Some t"
  shows "\<exists>h'. store r x h = Some h' \<and> deref h' r = Some x"
proof (cases r)
  case (Var v)
  with assms show ?thesis by (simp split: if_splits)
next
  case (Elem p i)
  show ?thesis
  proof (cases p)
    case None
    with Elem assms show ?thesis by simp
  next
    case (Some a)
    with Elem assms obtain xs where
      xs: "a < length (arrays h)" "arrays h ! a = Some xs" "i < length xs"
      by (auto simp: array_at_def split: option.splits if_splits)
    let ?h = "Heap (vars h) ((arrays h)[a := Some (xs[i := x])])"
    from xs have "store r x h = Some ?h"
      by (simp add: Elem Some array_at_def)
    moreover from xs have "deref ?h r = Some x"
      by (simp add: Elem Some array_at_def)
    ultimately show ?thesis by blast
  qed
qed

lemma self_assignment_empties:
  assumes "deref h r = Some t"
  shows "\<exists>h'. copy_assign (Suc fuel) r r h = Returns h'
           \<and> deref h' r = Some (Object (id_o t) (nodes_o t) 0 (reserved_o t))"
proof -
  let ?e = "Object (id_o t) (nodes_o t) 0 (reserved_o t)"
  from store_deref [OF assms, of ?e] obtain h1 where
    h1: "store r ?e h = Some h1" "deref h1 r = Some ?e" by blast
  from store_deref [OF h1(2), of ?e] obtain h2 where
    h2: "store r ?e h1 = Some h2" "deref h2 r = Some ?e" by blast
  have "begin_assign r r h = Some (nodes_o t, 0, h2)"
    by (simp add: begin_assign_def assms h1 h2)
  with h2(2) show ?thesis by simp
qed

lemma deref_Elem_arrays:
  "arrays h' = arrays h \<Longrightarrow> deref h' (Elem p j) = deref h (Elem p j)"
  by (cases p) (simp_all add: array_at_def)

lemma store_other:
  assumes "store r x h = Some h'" and "r' \<noteq> r"
  shows "deref h' r' = deref h r'"
proof (cases r)
  case (Var v)
  with assms(1) have h': "v < length (vars h)" "h' = Heap ((vars h)[v := x]) (arrays h)"
    by (auto split: if_splits)
  show ?thesis
  proof (cases r')
    case r': (Var w)
    with Var assms(2) h' show ?thesis by auto
  next
    case (Elem p j)
    show ?thesis
      unfolding Elem by (rule deref_Elem_arrays) (simp add: h'(2))
  qed
next
  case (Elem p i)
  show ?thesis
  proof (cases p)
    case None
    with Elem assms show ?thesis by simp
  next
    case (Some a)
    with Elem assms(1) obtain xs where
      xs: "a < length (arrays h)" "arrays h ! a = Some xs" "i < length xs"
        "h' = Heap (vars h) ((arrays h)[a := Some (xs[i := x])])"
      by (auto simp: array_at_def split: option.splits if_splits)
    show ?thesis
    proof (cases r')
      case (Var v)
      with xs(4) show ?thesis by simp
    next
      case r': (Elem p' j)
      show ?thesis
      proof (cases p')
        case None
        with r' show ?thesis by simp
      next
        case (Some b)
        with r' Elem \<open>p = Some a\<close> assms(2) have d: "b \<noteq> a \<or> j \<noteq> i" by auto
        show ?thesis
        proof (cases "b = a")
          case False
          then have "array_at h' b = array_at h b"
            by (simp add: xs(4) array_at_def)
          then show ?thesis by (simp add: r' Some)
        next
          case True
          with d have j: "j \<noteq> i" by simp
          have "array_at h' b = Some (xs[i := x])" "array_at h b = Some xs"
            using xs(1,2) by (simp_all add: True xs(4) array_at_def)
          with j show ?thesis by (simp add: r' Some)
        qed
      qed
    qed
  qed
qed

lemma append_h_no_array:
  assumes t: "deref h this = Some (Object i None 0 r)" and r: "r \<noteq> 0"
  shows "append_h this x h = None"
proof -
  have g: "grow_if_needed_h this h = Some h"
    using t r by (simp add: grow_if_needed_h_def)
  from store_deref [OF t, of "Object i None (0 + 1) r"] obtain h2 where
    h2: "store this (Object i None (0 + 1) r) h = Some h2" by blast
  show ?thesis
    using t h2 by (simp add: append_h_def g)
qed

lemma emplace_node_h_no_array:
  assumes t: "deref h this = Some (Object i None 0 r)" and r: "r \<noteq> 0"
  shows "emplace_node_h this x h = None"
  using t append_h_no_array [OF t r, of x]
  by (simp add: emplace_node_h_def nodes_h_def lower_bound_h_def)

lemma assign_to_moved_from:
  assumes t: "deref h this = Some (Object i None s r)" and r: "r \<noteq> 0"
    and src: "deref h other = Some src" and ne: "other \<noteq> this"
    and sz: "size_o src \<noteq> 0" and n: "deref h (Elem (nodes_o src) 0) = Some n"
  shows "copy_assign (Suc fuel) this other h = Undefined"
proof -
  let ?e1 = "Object i None 0 r"
  let ?e2 = "Object (id_o src) None 0 r"
  from store_deref [OF t, of ?e1] obtain h1 where
    h1: "store this ?e1 h = Some h1" "deref h1 this = Some ?e1" by blast
  from store_deref [OF h1(2), of ?e2] obtain h2 where
    h2: "store this ?e2 h1 = Some h2" "deref h2 this = Some ?e2" by blast
  have o1: "deref h1 other = Some src"
    using store_other [OF h1(1) ne] src by simp
  have o2: "deref h2 other = Some src"
    using store_other [OF h2(1) ne] o1 by simp
  have b: "begin_assign this other h = Some (nodes_o src, size_o src, h2)"
    using t h1 h2 o1 o2 by (simp add: begin_assign_def)
  have "\<exists>n'. deref h2 (Elem (nodes_o src) 0) = Some n'"
  proof (cases "Elem (nodes_o src) 0 = this")
    case True
    with h2(2) show ?thesis by simp
  next
    case False
    from store_other [OF h1(1) False] store_other [OF h2(1) False] n
    show ?thesis by simp
  qed
  then obtain n' where n': "deref h2 (Elem (nodes_o src) 0) = Some n'" ..
  have e: "emplace_copy this (Elem (nodes_o src) 0) h2 = None"
    using n' emplace_node_h_no_array [OF h2(2) r] by (simp add: emplace_copy_def)
  from sz obtain k where k: "size_o src = Suc k" by (cases "size_o src") auto
  show ?thesis
    using b e by (simp add: k)
qed

text \<open>
  C10. The copy assignment does not give a multipath structurally equal to its source
  for every multipath. For the chain \<open>p\<close> built from the linear path 7, 8, 9:
  the self-assignment \<open>p = p\<close> returns, at every depth of recursion it is allowed, and
  leaves \<open>p\<close> without children, the node 7 alone instead of the chain 7, 8, 9, because
  \<open>size_ = 0\<close> empties the source before the loop over its children starts; \<open>equals\<close>
  is false of what \<open>p\<close> is afterwards and what it was before. And the
  assignment \<open>t = p\<close> to the moved-from object \<open>t\<close> (after \<open>multipath t{1, 2}\<close>,
  \<open>multipath a\<close> and \<open>a = std::move(t)\<close>) has undefined behaviour: \<open>t\<close> has no array but a
  \<open>reserved_\<close> of 16, so \<open>append\<close> does not allocate one and writes the id through
  \<open>nullptr\<close>.
\<close>

theorem copy_assign_self_and_moved_from:
  "construct_linear [7, 8, 9] empty_heap = Some (Var 0, heap_789)
   \<and> tree_of 3 heap_789 (Var 0) = Some (Tree 7 [Tree 8 [Tree 9 []]])
   \<and> copy_assign (Suc fuel) (Var 0) (Var 0) heap_789
       = Returns (Heap [Object 7 (Some 0) 0 16] (arrays heap_789))
   \<and> tree_of 3 (Heap [Object 7 (Some 0) 0 16] (arrays heap_789)) (Var 0) = Some (Tree 7 [])
   \<and> load 3 heap_789 (Var 0) = Some chain_789
   \<and> map_option (\<lambda>m. equals m chain_789)
         (load 3 (Heap [Object 7 (Some 0) 0 16] (arrays heap_789)) (Var 0)) = Some False
   \<and> do { (t, h1) \<leftarrow> construct_linear [1, 2] heap_789;
           let (a, h2) = new_object h1;
           move_assign_h a t h2 } = Some moved_from_heap
   \<and> tree_of 3 moved_from_heap (Var 0) = Some (Tree 7 [Tree 8 [Tree 9 []]])
   \<and> copy_assign (Suc fuel) (Var 1) (Var 0) moved_from_heap = Undefined"
proof -
  have a: "construct_linear [7, 8, 9] empty_heap = Some (Var 0, heap_789)"
    by code_simp
  have b: "tree_of 3 heap_789 (Var 0) = Some (Tree 7 [Tree 8 [Tree 9 []]])"
    by code_simp
  have s: "begin_assign (Var 0) (Var 0) heap_789
           = Some (Some 0, 0, Heap [Object 7 (Some 0) 0 16] (arrays heap_789))"
    by code_simp
  have c: "copy_assign (Suc fuel) (Var 0) (Var 0) heap_789
       = Returns (Heap [Object 7 (Some 0) 0 16] (arrays heap_789))"
    using s by simp
  have d: "tree_of 3 (Heap [Object 7 (Some 0) 0 16] (arrays heap_789)) (Var 0)
           = Some (Tree 7 [])"
    by code_simp
  have l: "load 3 heap_789 (Var 0) = Some chain_789"
    by code_simp
  have q: "map_option (\<lambda>m. equals m chain_789)
             (load 3 (Heap [Object 7 (Some 0) 0 16] (arrays heap_789)) (Var 0)) = Some False"
    by code_simp
  have e: "do { (t, h1) \<leftarrow> construct_linear [1, 2] heap_789;
                let (a, h2) = new_object h1;
                move_assign_h a t h2 } = Some moved_from_heap"
    by code_simp
  have f: "tree_of 3 moved_from_heap (Var 0) = Some (Tree 7 [Tree 8 [Tree 9 []]])"
    by code_simp
  have m: "begin_assign (Var 1) (Var 0) moved_from_heap
           = Some (Some 0, 1,
                   Heap [Object 7 (Some 0) 1 16, Object 7 None 0 16, Object 1 (Some 2) 1 16]
                     (arrays moved_from_heap))"
    by code_simp
  have n: "emplace_copy (Var 1) (Elem (Some 0) 0)
             (Heap [Object 7 (Some 0) 1 16, Object 7 None 0 16, Object 1 (Some 2) 1 16]
                (arrays moved_from_heap)) = None"
    by code_simp
  have g: "copy_assign (Suc fuel) (Var 1) (Var 0) moved_from_heap = Undefined"
    using m n by simp
  from a b c d l q e f g show ?thesis by (intro conjI)
qed

end
